theory Spec2Isabelle
  imports Complex_Main "HOL-Library.Char_ord"
begin

section \<open>A character-level transformer language model with a key/value cache\<close>

text \<open>
  This theory embeds \<^verbatim>\<open>NanoGPTLangugageModel.py\<close>: the character codec built from the
  training corpus, the attention modules \<^verbatim>\<open>Head\<close> and \<^verbatim>\<open>MultiHeadAttention\<close>, the
  feed-forward module, the transformer block, and the language model with its methods
  \<^verbatim>\<open>forward\<close> and \<^verbatim>\<open>generate\<close>.

  Conventions of the embedding.
  \<^item> Every Python exception is a value: a function that can raise returns a sum, with
    \<open>Inl\<close> for the exception. The constructor says which exception, its argument says
    where in the source it is raised.
  \<^item> The module-level hyperparameters are constants with the values of the source. The
    corpus \<^verbatim>\<open>text\<close> is read from a file, so it is a parameter of the codec. The learned
    weights are parameters too, collected in records that follow the modules' attributes.
  \<^item> A tensor is a nested list. Every operation of the source acts on the elements of
    the leading batch axis independently, and the embedding describes one such element:
    the source's \<^verbatim>\<open>[B, T, C]\<close> is a list of \<open>T\<close> rows of \<open>C\<close> numbers, its
    \<^verbatim>\<open>[B, n, T, h]\<close> a list of \<open>n\<close> heads with \<open>T\<close> rows each, and \<^verbatim>\<open>idx\<close> is one
    sequence of token IDs. Lengths along the time axis are checked as the source checks
    them; the widths of the weight matrices are those the constructors give them.
  \<^item> Numbers are real numbers: rounding of floating-point arithmetic is not modelled.
    \<^verbatim>\<open>float('-inf')\<close> is a value of its own, \<open>Neg_inf\<close>.
  \<^item> \<^verbatim>\<open>nn.Dropout\<close> depends on the mode of its module. The definitions of the modules
    describe them in evaluation mode, where dropout is the identity. A second set of
    definitions, with the suffix \<open>_mode\<close>, describes them in both modes: it takes the
    mode and the Bernoulli draws of the random number generator as arguments.
  \<^item> \<^verbatim>\<open>torch.multinomial\<close> draws from the random number generator. The draw of
    generation step \<open>k\<close> is a parameter of \<^verbatim>\<open>generate\<close>: a function from the step and the
    probabilities to the sampled index.
\<close>

subsection \<open>Exceptions and comprehensions\<close>

datatype 'k lookup_error = KeyError 'k

datatype site =
  Token_embedding | Position_embedding | Last_position | Zip_blocks | Masked_fill
  | Multinomial | View_targets | Target_index | Unpack

datatype error = IndexError site | TypeError site | RuntimeError site | ValueError site

text \<open>A list comprehension raises as soon as one of its elements does.\<close>

fun map_result :: "('a \<Rightarrow> 'e + 'b) \<Rightarrow> 'a list \<Rightarrow> 'e + 'b list" where
  "map_result f [] = Inr []"
| "map_result f (x # xs) =
     (case f x of
        Inl e \<Rightarrow> Inl e
      | Inr y \<Rightarrow> (case map_result f xs of Inl e \<Rightarrow> Inl e | Inr ys \<Rightarrow> Inr (y # ys)))"

subsection \<open>The codec\<close>

text \<open>
  Lines 25 to 32: \<^verbatim>\<open>chars = sorted(list(set(text)))\<close> and the two dictionaries built
  from \<^verbatim>\<open>enumerate(chars)\<close>. A dictionary comprehension stores its pairs from left to
  right, a later pair replacing an earlier one with the same key. Indexing a dictionary
  with an absent key raises \<^verbatim>\<open>KeyError\<close>. Symbols are of any linearly ordered type
  (Python orders characters by code point); \<^verbatim>\<open>''.join\<close> of a list of one-character
  strings is the list of these characters.
\<close>

definition dict_of :: "('k \<times> 'v) list \<Rightarrow> ('k \<rightharpoonup> 'v)" where
  "dict_of kvs = foldl (\<lambda>m (k, v). m(k \<mapsto> v)) Map.empty kvs"

definition getitem :: "('k \<rightharpoonup> 'v) \<Rightarrow> 'k \<Rightarrow> 'k lookup_error + 'v" where
  "getitem d k = (case d k of None \<Rightarrow> Inl (KeyError k) | Some v \<Rightarrow> Inr v)"

definition chars :: "'a::linorder list \<Rightarrow> 'a list" where
  "chars text = sorted_list_of_set (set text)"

definition vocab_size :: "'a::linorder list \<Rightarrow> nat" where
  "vocab_size text = length (chars text)"

definition stoi :: "'a::linorder list \<Rightarrow> ('a \<rightharpoonup> nat)" where
  "stoi text = dict_of (map (\<lambda>(i, ch). (ch, i)) (enumerate 0 (chars text)))"

definition itos :: "'a::linorder list \<Rightarrow> (nat \<rightharpoonup> 'a)" where
  "itos text = dict_of (map (\<lambda>(i, ch). (i, ch)) (enumerate 0 (chars text)))"

definition encode :: "'a::linorder list \<Rightarrow> 'a list \<Rightarrow> 'a lookup_error + nat list" where
  "encode text s = map_result (getitem (stoi text)) s"

definition decode :: "'a::linorder list \<Rightarrow> nat list \<Rightarrow> nat lookup_error + 'a list" where
  "decode text l = map_result (getitem (itos text)) l"

subsection \<open>Hyperparameters\<close>

text \<open>Lines 7 to 17. \<^verbatim>\<open>head_size\<close> is computed in \<^verbatim>\<open>Block.__init__\<close> (line 181).\<close>

definition block_size :: nat where "block_size = 256"

definition n_embd :: nat where "n_embd = 384"

definition n_head :: nat where "n_head = 6"

definition n_layer :: nat where "n_layer = 6"

definition head_size :: nat where
  "head_size = n_embd div n_head"

subsection \<open>Tensors and layers of the library\<close>

type_synonym vec = "real list"

type_synonym mat = "real list list"

datatype efloat = Neg_inf | Finite real

definition dot :: "vec \<Rightarrow> vec \<Rightarrow> real" where
  "dot a b = sum_list (map2 (*) a b)"

definition vadd :: "vec \<Rightarrow> vec \<Rightarrow> vec" where
  "vadd a b = map2 (+) a b"

definition tadd :: "mat \<Rightarrow> mat \<Rightarrow> mat" where
  "tadd x y = map2 vadd x y"

text \<open>
  \<^verbatim>\<open>nn.Linear\<close> stores its weight with one row per output feature; applied to a row
  \<open>x\<close> it returns \<open>x W\<^sup>T\<close>, plus the bias when it has one.
\<close>

definition linear_nobias :: "mat \<Rightarrow> vec \<Rightarrow> vec" where
  "linear_nobias W x = map (dot x) W"

definition linear :: "mat \<Rightarrow> vec \<Rightarrow> vec \<Rightarrow> vec" where
  "linear W b x = vadd (linear_nobias W x) b"

fun exp_e :: "efloat \<Rightarrow> real" where
  "exp_e Neg_inf = 0"
| "exp_e (Finite x) = exp x"

text \<open>\<^verbatim>\<open>F.softmax(_, dim=-1)\<close> of one row; an entry \<open>-inf\<close> gets weight zero.\<close>

definition softmax :: "efloat list \<Rightarrow> vec" where
  "softmax xs = map (\<lambda>x. exp_e x / sum_list (map exp_e xs)) xs"

text \<open>\<^verbatim>\<open>nn.Dropout\<close> in evaluation mode; training mode follows below.\<close>

definition dropout :: "'a \<Rightarrow> 'a" where
  "dropout x = x"

definition relu :: "real \<Rightarrow> real" where
  "relu v = max 0 v"

record ln_params =
  ln_weight :: vec
  ln_bias :: vec

text \<open>\<^verbatim>\<open>nn.LayerNorm(n_embd)\<close> of one row, with the library's \<open>eps = 1e-5\<close>.\<close>

definition layer_norm :: "ln_params \<Rightarrow> vec \<Rightarrow> vec" where
  "layer_norm p row =
     (let n = real (length row);
          mean = sum_list row / n;
          var = sum_list (map (\<lambda>v. (v - mean)\<^sup>2) row) / n
      in vadd (map2 (*) (map (\<lambda>v. (v - mean) / sqrt (var + 1 / 100000)) row) (ln_weight p))
              (ln_bias p))"

text \<open>\<^verbatim>\<open>nn.Embedding\<close>: an index past the table raises \<^verbatim>\<open>IndexError\<close>.\<close>

definition embedding :: "site \<Rightarrow> mat \<Rightarrow> nat \<Rightarrow> error + vec" where
  "embedding s table i = (if i < length table then Inr (table ! i) else Inl (IndexError s))"

text \<open>The slice \<^verbatim>\<open>xs[-n:]\<close> for \<open>n > 0\<close>: the last \<open>n\<close> elements, or all of them.\<close>

definition last_n :: "nat \<Rightarrow> 'a list \<Rightarrow> 'a list" where
  "last_n n xs = drop (length xs - n) xs"

text \<open>\<^verbatim>\<open>t.shape[2]\<close> of a tensor \<^verbatim>\<open>[B, n, T, h]\<close>: the length of its time axis.\<close>

definition time_len :: "mat list \<Rightarrow> nat" where
  "time_len t = (case t of [] \<Rightarrow> 0 | h # _ \<Rightarrow> length h)"

subsection \<open>The causal mask\<close>

text \<open>
  \<open>tril i j\<close> is the entry of the buffer \<^verbatim>\<open>torch.tril(torch.ones(block_size, block_size))\<close>
  in row \<open>i\<close> and column \<open>j\<close>. The slice \<^verbatim>\<open>tril[:T, :T]\<close> has \<open>M = min T block_size\<close>
  rows and columns. \<^verbatim>\<open>masked_fill\<close> broadcasts the mask \<^verbatim>\<open>tril[:T, :T] == 0\<close> against
  the scores, a tensor with \<open>T\<close> rows and \<open>K\<close> columns: two sizes are compatible when they
  are equal or one of them is 1, and \<^verbatim>\<open>RuntimeError\<close> is raised otherwise. A mask with
  one row and one column is its entry \<open>tril 0 0\<close> everywhere.
\<close>

definition tril :: "nat \<Rightarrow> nat \<Rightarrow> real" where
  "tril i j = (if j \<le> i then 1 else 0)"

definition broadcastable :: "nat \<Rightarrow> nat \<Rightarrow> bool" where
  "broadcastable a b \<longleftrightarrow> a = b \<or> a = 1 \<or> b = 1"

definition masked :: "nat \<Rightarrow> mat \<Rightarrow> efloat list list" where
  "masked M wei =
     map (\<lambda>(i, row).
       map (\<lambda>(j, s).
         if tril (if M = 1 then 0 else i) (if M = 1 then 0 else j) = 0
         then Neg_inf else Finite s) (enumerate 0 row)) (enumerate 0 wei)"

definition masked_fill_tril :: "nat \<Rightarrow> nat \<Rightarrow> mat list \<Rightarrow> error + efloat list list list" where
  "masked_fill_tril T K wei =
     (let M = min T block_size
      in if broadcastable M T \<and> broadcastable M K
         then Inr (map (masked M) wei)
         else Inl (RuntimeError Masked_fill))"

subsection \<open>One head of self-attention\<close>

text \<open>
  Class \<^verbatim>\<open>Head\<close>, lines 60 to 96. \<^verbatim>\<open>Head(head_size)\<close> has three linear maps without
  bias from \<^verbatim>\<open>n_embd\<close> to \<^verbatim>\<open>head_size\<close> features, so each weight has \<^verbatim>\<open>head_size\<close> rows.
  In \<^verbatim>\<open>forward\<close>, \<^verbatim>\<open>B, T, C = x.shape\<close> binds \<open>C\<close> to the width of the input, which
  \<^verbatim>\<open>nn.Linear(n_embd, head_size)\<close> requires to be \<^verbatim>\<open>n_embd\<close>. \<open>head_wei\<close> is the tensor
  \<^verbatim>\<open>wei\<close> of line 88, before masking.
\<close>

record head_params =
  h_key :: mat
  h_query :: mat
  h_value :: mat

definition head_dim :: "head_params \<Rightarrow> nat" where
  "head_dim p = length (h_key p)"

definition matmul_nt :: "mat \<Rightarrow> mat \<Rightarrow> mat" where
  "matmul_nt q k = map (\<lambda>qr. map (\<lambda>kr. dot qr kr) k) q"

definition smul :: "mat \<Rightarrow> real \<Rightarrow> mat" where
  "smul m c = map (map (\<lambda>s. s * c)) m"

definition weighted_sum :: "nat \<Rightarrow> vec \<Rightarrow> mat \<Rightarrow> vec" where
  "weighted_sum h w v = map (\<lambda>c. sum_list (map2 (\<lambda>wk vk. wk * vk ! c) w v)) [0..<h]"

definition head_wei :: "head_params \<Rightarrow> mat \<Rightarrow> mat" where
  "head_wei p x =
     (let C = n_embd;
          k = map (linear_nobias (h_key p)) x;
          q = map (linear_nobias (h_query p)) x
      in smul (matmul_nt q k) (1 / sqrt (real C)))"

definition head_forward :: "head_params \<Rightarrow> mat \<Rightarrow> error + mat" where
  "head_forward p x =
     (let T = length x;
          wei = head_wei p x;
          M = min T block_size
      in if broadcastable M T
         then (let wei = masked M wei;
                   wei = map softmax wei;
                   wei = dropout wei;
                   v = map (linear_nobias (h_value p)) x;
                   out = map (\<lambda>w. weighted_sum (head_dim p) w v) wei
               in Inr out)
         else Inl (RuntimeError Masked_fill))"

subsection \<open>Multi-head attention\<close>

text \<open>
  Class \<^verbatim>\<open>MultiHeadAttention\<close>, lines 98 to 151. \<open>split_heads\<close> is the reshape to
  \<^verbatim>\<open>[B, T, n, h]\<close> followed by the transposition to \<^verbatim>\<open>[B, n, T, h]\<close> (lines 128 and 129),
  \<open>merge_heads\<close> the way back (lines 147 and 148). \<open>mha_kv\<close> is the pair \<^verbatim>\<open>(k, v)\<close> after
  lines 125 to 135: with a cache, the previous keys and values are cut to
  \<^verbatim>\<open>prev_k[:, :, -block_size-1:, :]\<close> and the new ones are appended along the time axis.
  \<open>mha_att_wei\<close> is the tensor \<^verbatim>\<open>att_wei\<close> of line 138, before masking. A cache is a pair
  of tensors \<^verbatim>\<open>[B, n, K, h]\<close>.
\<close>

record mha_params =
  w_key :: mat
  w_query :: mat
  w_value :: mat
  proj_w :: mat
  proj_b :: vec

type_synonym kvcache = "mat list \<times> mat list"

definition split_heads :: "mat \<Rightarrow> mat list" where
  "split_heads t = map (\<lambda>n. map (\<lambda>row. take head_size (drop (n * head_size) row)) t) [0..<n_head]"

definition merge_heads :: "nat \<Rightarrow> mat list \<Rightarrow> mat" where
  "merge_heads T out = map (\<lambda>t. concat (map (\<lambda>head. head ! t) out)) [0..<T]"

definition cat_time :: "mat list \<Rightarrow> mat list \<Rightarrow> mat list" where
  "cat_time prev new = map2 (@) prev new"

definition mha_kv :: "mha_params \<Rightarrow> mat \<Rightarrow> bool \<Rightarrow> kvcache option \<Rightarrow> kvcache" where
  "mha_kv p x use_cache kvcache =
     (let k = split_heads (map (linear_nobias (w_key p)) x);
          v = split_heads (map (linear_nobias (w_value p)) x)
      in if use_cache then
           (case kvcache of
              Some (prev_k, prev_v) \<Rightarrow>
                (let prev_k = map (last_n (block_size + 1)) prev_k;
                     prev_v = map (last_n (block_size + 1)) prev_v
                 in (cat_time prev_k k, cat_time prev_v v))
            | None \<Rightarrow> (k, v))
         else (k, v))"

definition einsum_qk :: "mat list \<Rightarrow> mat list \<Rightarrow> mat list" where
  "einsum_qk q k = map2 matmul_nt q k"

definition einsum_av :: "mat list \<Rightarrow> mat list \<Rightarrow> mat list" where
  "einsum_av a v = map2 (\<lambda>ah vh. map (\<lambda>w. weighted_sum head_size w vh) ah) a v"

definition mha_att_wei :: "mha_params \<Rightarrow> mat \<Rightarrow> bool \<Rightarrow> kvcache option \<Rightarrow> mat list" where
  "mha_att_wei p x use_cache kvcache =
     (let q = split_heads (map (linear_nobias (w_query p)) x);
          (k, v) = mha_kv p x use_cache kvcache
      in map (\<lambda>m. smul m (1 / sqrt (real head_size))) (einsum_qk q k))"

definition mha_forward ::
  "mha_params \<Rightarrow> mat \<Rightarrow> bool \<Rightarrow> kvcache option \<Rightarrow> error + mat \<times> kvcache option" where
  "mha_forward p x use_cache kvcache =
     (let T = length x;
          (k, v) = mha_kv p x use_cache kvcache;
          new_kvcache = (if use_cache then Some (k, v) else kvcache);
          att_wei = mha_att_wei p x use_cache kvcache
      in case masked_fill_tril T (time_len k) att_wei of
           Inl e \<Rightarrow> Inl e
         | Inr att_wei \<Rightarrow>
             (let att_wei = map (map softmax) att_wei;
                  att_wei = dropout att_wei;
                  out = einsum_av att_wei v;
                  out = merge_heads T out;
                  out = map (linear (proj_w p) (proj_b p)) out;
                  out = dropout out
              in Inr (out, new_kvcache)))"

subsection \<open>Feed-forward module and transformer block\<close>

text \<open>Classes \<^verbatim>\<open>FeedForward\<close> (lines 153 to 174) and \<^verbatim>\<open>Block\<close> (lines 176 to 201).\<close>

record ffwd_params =
  w1 :: mat
  b1 :: vec
  w2 :: mat
  b2 :: vec

definition ffwd_row :: "ffwd_params \<Rightarrow> vec \<Rightarrow> vec" where
  "ffwd_row p r = dropout (linear (w2 p) (b2 p) (map relu (linear (w1 p) (b1 p) r)))"

definition ffwd_forward :: "ffwd_params \<Rightarrow> mat \<Rightarrow> mat" where
  "ffwd_forward p x = map (ffwd_row p) x"

record block_params =
  sa_heads :: mha_params
  ffwd :: ffwd_params
  ln1 :: ln_params
  ln2 :: ln_params

definition block_forward ::
  "block_params \<Rightarrow> mat \<Rightarrow> bool \<Rightarrow> kvcache option \<Rightarrow> error + mat \<times> kvcache option" where
  "block_forward p x use_cache kvcache =
     (case mha_forward (sa_heads p) (map (layer_norm (ln1 p)) x) use_cache kvcache of
        Inl e \<Rightarrow> Inl e
      | Inr (heads_out, kvcache) \<Rightarrow>
          (let x = tadd x heads_out;
               x = tadd x (ffwd_forward (ffwd p) (map (layer_norm (ln2 p)) x))
           in Inr (x, kvcache)))"

subsection \<open>The language model\<close>

text \<open>
  Class \<^verbatim>\<open>NanoGPTLanguageModel\<close>, lines 203 to 272. \<open>constructed\<close> states the shapes that
  \<^verbatim>\<open>__init__\<close> gives the parameters, as far as the time axis and the vocabulary are
  concerned: the position table has \<^verbatim>\<open>block_size\<close> rows, there are \<^verbatim>\<open>n_layer\<close> blocks, and
  the output layer has one row and one bias per row of the token table.
\<close>

record model_params =
  token_embedding_table :: mat
  position_embedding_table :: mat
  blocks :: "block_params list"
  ln_f :: ln_params
  lm_head_w :: mat
  lm_head_b :: vec

definition constructed :: "model_params \<Rightarrow> bool" where
  "constructed P \<longleftrightarrow>
     length (position_embedding_table P) = block_size \<and>
     length (blocks P) = n_layer \<and>
     length (lm_head_w P) = length (token_embedding_table P) \<and>
     length (lm_head_b P) = length (token_embedding_table P)"

text \<open>
  The loop of lines 231 to 234 over \<^verbatim>\<open>zip(self.blocks, blocks_kvcache)\<close>, once the
  second argument is known to be a list.
\<close>

fun run_blocks ::
  "(block_params \<times> kvcache option) list \<Rightarrow> mat \<Rightarrow> bool \<Rightarrow> error + mat \<times> kvcache option list" where
  "run_blocks [] x use_cache = Inr (x, [])"
| "run_blocks ((block, kvcache) # rest) x use_cache =
     (case block_forward block x use_cache kvcache of
        Inl e \<Rightarrow> Inl e
      | Inr (x', new_cache) \<Rightarrow>
          (case run_blocks rest x' use_cache of
             Inl e \<Rightarrow> Inl e
           | Inr (y, new_kvcaches) \<Rightarrow> Inr (y, new_cache # new_kvcaches)))"

text \<open>
  Lines 242 to 246: \<^verbatim>\<open>targets.view(B*T)\<close> raises when the number of targets is not the
  number of rows of logits, \<^verbatim>\<open>F.cross_entropy\<close> raises for a target that is not a class,
  and the loss is the mean over the rows of the negative log-probability of the target.
\<close>

definition cross_entropy :: "mat \<Rightarrow> nat list \<Rightarrow> error + real" where
  "cross_entropy logits targets =
     (if length targets \<noteq> length logits then Inl (RuntimeError View_targets)
      else if list_ex (\<lambda>(row, t). length row \<le> t) (zip logits targets) then Inl (IndexError Target_index)
      else Inr (sum_list (map2 (\<lambda>row t. - ln (softmax (map Finite row) ! t)) logits targets)
                / real (length logits)))"

text \<open>
  Line 227. \<^verbatim>\<open>None\<close> and the empty list are false, a pair of tensors is true.
\<close>

definition history_length :: "kvcache option list option \<Rightarrow> nat" where
  "history_length blocks_kvcache =
     (case blocks_kvcache of
        None \<Rightarrow> 0
      | Some [] \<Rightarrow> 0
      | Some (None # _) \<Rightarrow> 0
      | Some (Some (k, v) # _) \<Rightarrow> time_len k)"

text \<open>Lines 226 to 230: token and position embeddings and their sum.\<close>

definition embed :: "model_params \<Rightarrow> nat list \<Rightarrow> nat \<Rightarrow> error + mat" where
  "embed P idx history =
     (case map_result (embedding Token_embedding (token_embedding_table P)) idx of
        Inl e \<Rightarrow> Inl e
      | Inr tok_emb \<Rightarrow>
          (case map_result (embedding Position_embedding (position_embedding_table P))
                  (map (\<lambda>t. t + history) [0..<length idx]) of
             Inl e \<Rightarrow> Inl e
           | Inr pos_emb \<Rightarrow> Inr (tadd tok_emb pos_emb)))"

text \<open>Lines 235 and 236: the final normalisation and the projection to the vocabulary.\<close>

definition lm_logits :: "model_params \<Rightarrow> mat \<Rightarrow> mat" where
  "lm_logits P x = map (linear (lm_head_w P) (lm_head_b P)) (map (layer_norm (ln_f P)) x)"

text \<open>
  \<^verbatim>\<open>forward\<close>, lines 212 to 249. The default for \<^verbatim>\<open>targets\<close> and for
  \<^verbatim>\<open>blocks_kvcache\<close> is \<^verbatim>\<open>None\<close>, for \<^verbatim>\<open>use_cache\<close> it is \<^verbatim>\<open>False\<close>. \<^verbatim>\<open>zip\<close> raises
  \<^verbatim>\<open>TypeError\<close> when its second argument is \<^verbatim>\<open>None\<close>. The result is the source's triple
  \<^verbatim>\<open>(logits, loss, new_kvcaches)\<close>; its last component is \<open>None\<close> where the source returns
  the pair \<^verbatim>\<open>(logits, loss)\<close>.
\<close>

definition forward ::
  "model_params \<Rightarrow> nat list \<Rightarrow> nat list option \<Rightarrow> bool \<Rightarrow> kvcache option list option \<Rightarrow>
   error + mat \<times> real option \<times> kvcache option list option" where
  "forward P idx targets use_cache blocks_kvcache =
     (case embed P idx (history_length blocks_kvcache) of
        Inl e \<Rightarrow> Inl e
      | Inr x \<Rightarrow>
          (case blocks_kvcache of
             None \<Rightarrow> Inl (TypeError Zip_blocks)
           | Some caches \<Rightarrow>
               (case run_blocks (zip (blocks P) caches) x use_cache of
                  Inl e \<Rightarrow> Inl e
                | Inr (x, new_kvcaches) \<Rightarrow>
                    (let logits = lm_logits P x
                     in case targets of
                          None \<Rightarrow> Inr (logits, None, if use_cache then Some new_kvcaches else None)
                        | Some tg \<Rightarrow>
                            (case cross_entropy logits tg of
                               Inl e \<Rightarrow> Inl e
                             | Inr loss \<Rightarrow>
                                 Inr (logits, Some loss,
                                      if use_cache then Some new_kvcaches else None))))))"

text \<open>
  \<^verbatim>\<open>generate\<close>, lines 251 to 272. The state of the loop is the triple of its variables
  \<^verbatim>\<open>curr_idx\<close>, \<^verbatim>\<open>blocks_kvcache\<close> and \<^verbatim>\<open>idx\<close>; \<open>generate_step\<close> is one iteration.
  \<^verbatim>\<open>logits[:, -1, :]\<close> raises \<^verbatim>\<open>IndexError\<close> when there is no position, and
  \<^verbatim>\<open>torch.multinomial\<close> raises when there is no category to draw from.
\<close>

type_synonym gen_state = "nat list \<times> kvcache option list \<times> nat list"

definition generate_step ::
  "model_params \<Rightarrow> (nat \<Rightarrow> vec \<Rightarrow> nat) \<Rightarrow> nat \<Rightarrow> gen_state \<Rightarrow> error + gen_state" where
  "generate_step P multinomial step st =
     (case st of (curr_idx, blocks_kvcache, idx) \<Rightarrow>
        (case forward P curr_idx None True (Some blocks_kvcache) of
           Inl e \<Rightarrow> Inl e
         | Inr (logits, loss, None) \<Rightarrow> Inl (ValueError Unpack)
         | Inr (logits, loss, Some blocks_kvcache) \<Rightarrow>
             (if logits = [] then Inl (IndexError Last_position)
              else let logits = last logits;
                       probs = softmax (map Finite logits)
                   in if probs = [] then Inl (RuntimeError Multinomial)
                      else let idx_next = multinomial step probs
                           in Inr ([idx_next], blocks_kvcache, idx @ [idx_next]))))"

fun generate_loop ::
  "model_params \<Rightarrow> (nat \<Rightarrow> vec \<Rightarrow> nat) \<Rightarrow> nat \<Rightarrow> nat \<Rightarrow> gen_state \<Rightarrow> error + gen_state" where
  "generate_loop P multinomial 0 step st = Inr st"
| "generate_loop P multinomial (Suc n) step st =
     (case generate_step P multinomial step st of
        Inl e \<Rightarrow> Inl e
      | Inr st' \<Rightarrow> generate_loop P multinomial n (Suc step) st')"

definition generate :: "model_params \<Rightarrow> (nat \<Rightarrow> vec \<Rightarrow> nat) \<Rightarrow> nat list \<Rightarrow> nat \<Rightarrow> error + nat list" where
  "generate P multinomial idx max_new_tokens =
     (case generate_loop P multinomial max_new_tokens 0 (idx, replicate n_layer None, idx) of
        Inl e \<Rightarrow> Inl e
      | Inr (curr_idx, blocks_kvcache, idx) \<Rightarrow> Inr idx)"

text \<open>
  Inputs of \<^verbatim>\<open>generate\<close>: a prompt is \<open>valid\<close> when every token ID is a row of the token
  embedding table, and a sampler is as \<^verbatim>\<open>torch.multinomial\<close> when it returns an index
  into the probabilities it is given.
\<close>

definition valid :: "model_params \<Rightarrow> nat list \<Rightarrow> bool" where
  "valid P idx = list_all (\<lambda>i. i < length (token_embedding_table P)) idx"

definition sampler_ok :: "(nat \<Rightarrow> vec \<Rightarrow> nat) \<Rightarrow> bool" where
  "sampler_ok mn \<longleftrightarrow> (\<forall>step probs. probs \<noteq> [] \<longrightarrow> mn step probs < length probs)"

subsection \<open>Reference: generation by full forward passes\<close>

text \<open>
  The specification compares cached generation with a generator that computes, at every
  step, the full forward pass over the whole sequence generated so far: token and
  position embeddings, all blocks without caching, final normalisation and projection, and
  then samples from the softmax of the logits at the last position with the same draw.
\<close>

definition forward_full :: "model_params \<Rightarrow> nat list \<Rightarrow> error + mat" where
  "forward_full P idx =
     (case embed P idx 0 of
        Inl e \<Rightarrow> Inl e
      | Inr x \<Rightarrow>
          (case run_blocks (zip (blocks P) (replicate n_layer None)) x False of
             Inl e \<Rightarrow> Inl e
           | Inr (x, new_kvcaches) \<Rightarrow> Inr (lm_logits P x)))"

definition full_step ::
  "model_params \<Rightarrow> (nat \<Rightarrow> vec \<Rightarrow> nat) \<Rightarrow> nat \<Rightarrow> nat list \<Rightarrow> error + nat list" where
  "full_step P multinomial step idx =
     (case forward_full P idx of
        Inl e \<Rightarrow> Inl e
      | Inr logits \<Rightarrow>
          (if logits = [] then Inl (IndexError Last_position)
           else let probs = softmax (map Finite (last logits))
                in if probs = [] then Inl (RuntimeError Multinomial)
                   else Inr (idx @ [multinomial step probs])))"

fun generate_full_loop ::
  "model_params \<Rightarrow> (nat \<Rightarrow> vec \<Rightarrow> nat) \<Rightarrow> nat \<Rightarrow> nat \<Rightarrow> nat list \<Rightarrow> error + nat list" where
  "generate_full_loop P multinomial 0 step idx = Inr idx"
| "generate_full_loop P multinomial (Suc n) step idx =
     (case full_step P multinomial step idx of
        Inl e \<Rightarrow> Inl e
      | Inr idx' \<Rightarrow> generate_full_loop P multinomial n (Suc step) idx')"

definition generate_full ::
  "model_params \<Rightarrow> (nat \<Rightarrow> vec \<Rightarrow> nat) \<Rightarrow> nat list \<Rightarrow> nat \<Rightarrow> error + nat list" where
  "generate_full P multinomial idx max_new_tokens =
     generate_full_loop P multinomial max_new_tokens 0 idx"

subsection \<open>Dropout and the mode of the modules\<close>

text \<open>
  \<^verbatim>\<open>nn.Dropout(dropout)\<close> depends on the attribute \<^verbatim>\<open>training\<close> of its module, which
  \<^verbatim>\<open>model.train()\<close> and \<^verbatim>\<open>model.eval()\<close> set for the model and all its submodules and
  which is true for a newly constructed model. No method of the model changes it, so
  \<^verbatim>\<open>forward\<close> and \<^verbatim>\<open>generate\<close> run in the mode their caller has left the model in:
  \<^verbatim>\<open>estimate_loss\<close> selects evaluation mode and restores training mode (lines 49 and 57),
  and nothing selects evaluation mode before the call of \<^verbatim>\<open>generate\<close> in line 302.

  In evaluation mode the layer is the identity (\<open>dropout\<close> above). In training mode it
  draws one Bernoulli variable per element of its input from the random number generator,
  returns zero for the elements whose draw fails, and divides the others by
  \<open>1 - dropout\<close>, with \<^verbatim>\<open>dropout = 0.2\<close> (line 17). The generator is seeded once (line
  20) and is then a sequence of draws: \<open>draws i\<close> says whether the element that takes the
  \<open>i\<close>-th Bernoulli draw is kept. A layer takes the next draws in the order of the
  elements of its input, and the number \<open>pos\<close> of draws taken so far is threaded through
  the calls, so that every function below returns this number with its result.
  \<open>map_accum\<close> threads it through the rows of a tensor. The draws of
  \<^verbatim>\<open>torch.multinomial\<close> remain the parameter \<open>multinomial\<close>.

  The definitions with the suffix \<open>_mode\<close> are the methods of the modules with the flag
  \<open>training\<close>, the sequence \<open>draws\<close> and the number \<open>pos\<close> as further arguments. For
  \<open>training = False\<close> they are the definitions above (lemmas \<open>head_forward_eval\<close> to
  \<open>generate_full_eval\<close>).
\<close>

definition dropout_rate :: real where
  "dropout_rate = 0.2"

definition dropout_row :: "bool \<Rightarrow> (nat \<Rightarrow> bool) \<Rightarrow> nat \<Rightarrow> vec \<Rightarrow> vec \<times> nat" where
  "dropout_row training draws pos v =
     (if training
      then (map (\<lambda>(i, a). if draws i then a / (1 - dropout_rate) else 0) (enumerate pos v),
            pos + length v)
      else (v, pos))"

fun map_accum :: "(nat \<Rightarrow> 'a \<Rightarrow> 'b \<times> nat) \<Rightarrow> nat \<Rightarrow> 'a list \<Rightarrow> 'b list \<times> nat" where
  "map_accum f pos [] = ([], pos)"
| "map_accum f pos (x # xs) =
     (case f pos x of (y, pos') \<Rightarrow>
        (case map_accum f pos' xs of (ys, pos'') \<Rightarrow> (y # ys, pos'')))"

definition dropout_mat :: "bool \<Rightarrow> (nat \<Rightarrow> bool) \<Rightarrow> nat \<Rightarrow> mat \<Rightarrow> mat \<times> nat" where
  "dropout_mat training draws pos m = map_accum (dropout_row training draws) pos m"

definition dropout_heads :: "bool \<Rightarrow> (nat \<Rightarrow> bool) \<Rightarrow> nat \<Rightarrow> mat list \<Rightarrow> mat list \<times> nat" where
  "dropout_heads training draws pos t = map_accum (dropout_mat training draws) pos t"

text \<open>\<^verbatim>\<open>Head.forward\<close>, with the dropout of line 92.\<close>

definition head_forward_mode ::
  "bool \<Rightarrow> (nat \<Rightarrow> bool) \<Rightarrow> nat \<Rightarrow> head_params \<Rightarrow> mat \<Rightarrow> error + mat \<times> nat" where
  "head_forward_mode training draws pos p x =
     (let T = length x;
          wei = head_wei p x;
          M = min T block_size
      in if broadcastable M T
         then (let wei = masked M wei;
                   wei = map softmax wei;
                   (wei, pos) = dropout_mat training draws pos wei;
                   v = map (linear_nobias (h_value p)) x;
                   out = map (\<lambda>w. weighted_sum (head_dim p) w v) wei
               in Inr (out, pos))
         else Inl (RuntimeError Masked_fill))"

text \<open>\<^verbatim>\<open>MultiHeadAttention.forward\<close>, with the dropouts of lines 144 and 150.\<close>

definition mha_forward_mode ::
  "bool \<Rightarrow> (nat \<Rightarrow> bool) \<Rightarrow> nat \<Rightarrow> mha_params \<Rightarrow> mat \<Rightarrow> bool \<Rightarrow> kvcache option \<Rightarrow>
   error + (mat \<times> kvcache option) \<times> nat" where
  "mha_forward_mode training draws pos p x use_cache kvcache =
     (let T = length x;
          (k, v) = mha_kv p x use_cache kvcache;
          new_kvcache = (if use_cache then Some (k, v) else kvcache);
          att_wei = mha_att_wei p x use_cache kvcache
      in case masked_fill_tril T (time_len k) att_wei of
           Inl e \<Rightarrow> Inl e
         | Inr att_wei \<Rightarrow>
             (let att_wei = map (map softmax) att_wei;
                  (att_wei, pos) = dropout_heads training draws pos att_wei;
                  out = einsum_av att_wei v;
                  out = merge_heads T out;
                  out = map (linear (proj_w p) (proj_b p)) out;
                  (out, pos) = dropout_mat training draws pos out
              in Inr ((out, new_kvcache), pos)))"

text \<open>\<^verbatim>\<open>FeedForward.forward\<close>, with the dropout that ends \<^verbatim>\<open>self.net\<close> (line 161).\<close>

definition ffwd_forward_mode ::
  "bool \<Rightarrow> (nat \<Rightarrow> bool) \<Rightarrow> nat \<Rightarrow> ffwd_params \<Rightarrow> mat \<Rightarrow> mat \<times> nat" where
  "ffwd_forward_mode training draws pos p x =
     dropout_mat training draws pos
       (map (\<lambda>r. linear (w2 p) (b2 p) (map relu (linear (w1 p) (b1 p) r))) x)"

text \<open>\<^verbatim>\<open>Block.forward\<close>: the attention layer draws before the feed-forward module.\<close>

definition block_forward_mode ::
  "bool \<Rightarrow> (nat \<Rightarrow> bool) \<Rightarrow> nat \<Rightarrow> block_params \<Rightarrow> mat \<Rightarrow> bool \<Rightarrow> kvcache option \<Rightarrow>
   error + (mat \<times> kvcache option) \<times> nat" where
  "block_forward_mode training draws pos p x use_cache kvcache =
     (case mha_forward_mode training draws pos (sa_heads p) (map (layer_norm (ln1 p)) x)
             use_cache kvcache of
        Inl e \<Rightarrow> Inl e
      | Inr ((heads_out, kvcache), pos) \<Rightarrow>
          (let x = tadd x heads_out;
               (y, pos) = ffwd_forward_mode training draws pos (ffwd p) (map (layer_norm (ln2 p)) x);
               x = tadd x y
           in Inr ((x, kvcache), pos)))"

text \<open>The loop over the blocks, \<^verbatim>\<open>forward\<close> and \<^verbatim>\<open>generate\<close> of the language model.\<close>

fun run_blocks_mode ::
  "bool \<Rightarrow> (nat \<Rightarrow> bool) \<Rightarrow> nat \<Rightarrow> (block_params \<times> kvcache option) list \<Rightarrow> mat \<Rightarrow> bool \<Rightarrow>
   error + (mat \<times> kvcache option list) \<times> nat" where
  "run_blocks_mode training draws pos [] x use_cache = Inr ((x, []), pos)"
| "run_blocks_mode training draws pos ((block, kvcache) # rest) x use_cache =
     (case block_forward_mode training draws pos block x use_cache kvcache of
        Inl e \<Rightarrow> Inl e
      | Inr ((x', new_cache), pos') \<Rightarrow>
          (case run_blocks_mode training draws pos' rest x' use_cache of
             Inl e \<Rightarrow> Inl e
           | Inr ((y, new_kvcaches), pos'') \<Rightarrow> Inr ((y, new_cache # new_kvcaches), pos'')))"

definition forward_mode ::
  "bool \<Rightarrow> (nat \<Rightarrow> bool) \<Rightarrow> nat \<Rightarrow> model_params \<Rightarrow> nat list \<Rightarrow> nat list option \<Rightarrow> bool \<Rightarrow>
   kvcache option list option \<Rightarrow>
   error + (mat \<times> real option \<times> kvcache option list option) \<times> nat" where
  "forward_mode training draws pos P idx targets use_cache blocks_kvcache =
     (case embed P idx (history_length blocks_kvcache) of
        Inl e \<Rightarrow> Inl e
      | Inr x \<Rightarrow>
          (case blocks_kvcache of
             None \<Rightarrow> Inl (TypeError Zip_blocks)
           | Some caches \<Rightarrow>
               (case run_blocks_mode training draws pos (zip (blocks P) caches) x use_cache of
                  Inl e \<Rightarrow> Inl e
                | Inr ((x, new_kvcaches), pos) \<Rightarrow>
                    (let logits = lm_logits P x
                     in case targets of
                          None \<Rightarrow>
                            Inr ((logits, None, if use_cache then Some new_kvcaches else None), pos)
                        | Some tg \<Rightarrow>
                            (case cross_entropy logits tg of
                               Inl e \<Rightarrow> Inl e
                             | Inr loss \<Rightarrow>
                                 Inr ((logits, Some loss,
                                       if use_cache then Some new_kvcaches else None), pos))))))"

definition generate_step_mode ::
  "bool \<Rightarrow> (nat \<Rightarrow> bool) \<Rightarrow> model_params \<Rightarrow> (nat \<Rightarrow> vec \<Rightarrow> nat) \<Rightarrow> nat \<Rightarrow> gen_state \<times> nat \<Rightarrow>
   error + gen_state \<times> nat" where
  "generate_step_mode training draws P multinomial step st =
     (case st of ((curr_idx, blocks_kvcache, idx), pos) \<Rightarrow>
        (case forward_mode training draws pos P curr_idx None True (Some blocks_kvcache) of
           Inl e \<Rightarrow> Inl e
         | Inr ((logits, loss, None), pos) \<Rightarrow> Inl (ValueError Unpack)
         | Inr ((logits, loss, Some blocks_kvcache), pos) \<Rightarrow>
             (if logits = [] then Inl (IndexError Last_position)
              else let logits = last logits;
                       probs = softmax (map Finite logits)
                   in if probs = [] then Inl (RuntimeError Multinomial)
                      else let idx_next = multinomial step probs
                           in Inr (([idx_next], blocks_kvcache, idx @ [idx_next]), pos))))"

fun generate_loop_mode ::
  "bool \<Rightarrow> (nat \<Rightarrow> bool) \<Rightarrow> model_params \<Rightarrow> (nat \<Rightarrow> vec \<Rightarrow> nat) \<Rightarrow> nat \<Rightarrow> nat \<Rightarrow> gen_state \<times> nat \<Rightarrow>
   error + gen_state \<times> nat" where
  "generate_loop_mode training draws P multinomial 0 step st = Inr st"
| "generate_loop_mode training draws P multinomial (Suc n) step st =
     (case generate_step_mode training draws P multinomial step st of
        Inl e \<Rightarrow> Inl e
      | Inr st' \<Rightarrow> generate_loop_mode training draws P multinomial n (Suc step) st')"

definition generate_mode ::
  "bool \<Rightarrow> (nat \<Rightarrow> bool) \<Rightarrow> nat \<Rightarrow> model_params \<Rightarrow> (nat \<Rightarrow> vec \<Rightarrow> nat) \<Rightarrow> nat list \<Rightarrow> nat \<Rightarrow>
   error + nat list" where
  "generate_mode training draws pos P multinomial idx max_new_tokens =
     (case generate_loop_mode training draws P multinomial max_new_tokens 0
             ((idx, replicate n_layer None, idx), pos) of
        Inl e \<Rightarrow> Inl e
      | Inr ((curr_idx, blocks_kvcache, idx), pos) \<Rightarrow> Inr idx)"

text \<open>
  The reference generator, with a full forward pass over the whole sequence at every step,
  on the same model in the same mode and with the same generator.
\<close>

definition forward_full_mode ::
  "bool \<Rightarrow> (nat \<Rightarrow> bool) \<Rightarrow> nat \<Rightarrow> model_params \<Rightarrow> nat list \<Rightarrow> error + mat \<times> nat" where
  "forward_full_mode training draws pos P idx =
     (case embed P idx 0 of
        Inl e \<Rightarrow> Inl e
      | Inr x \<Rightarrow>
          (case run_blocks_mode training draws pos (zip (blocks P) (replicate n_layer None)) x False of
             Inl e \<Rightarrow> Inl e
           | Inr ((x, new_kvcaches), pos) \<Rightarrow> Inr (lm_logits P x, pos)))"

definition full_step_mode ::
  "bool \<Rightarrow> (nat \<Rightarrow> bool) \<Rightarrow> model_params \<Rightarrow> (nat \<Rightarrow> vec \<Rightarrow> nat) \<Rightarrow> nat \<Rightarrow> nat list \<times> nat \<Rightarrow>
   error + nat list \<times> nat" where
  "full_step_mode training draws P multinomial step st =
     (case st of (idx, pos) \<Rightarrow>
        (case forward_full_mode training draws pos P idx of
           Inl e \<Rightarrow> Inl e
         | Inr (logits, pos) \<Rightarrow>
             (if logits = [] then Inl (IndexError Last_position)
              else let probs = softmax (map Finite (last logits))
                   in if probs = [] then Inl (RuntimeError Multinomial)
                      else Inr (idx @ [multinomial step probs], pos))))"

fun generate_full_loop_mode ::
  "bool \<Rightarrow> (nat \<Rightarrow> bool) \<Rightarrow> model_params \<Rightarrow> (nat \<Rightarrow> vec \<Rightarrow> nat) \<Rightarrow> nat \<Rightarrow> nat \<Rightarrow> nat list \<times> nat \<Rightarrow>
   error + nat list \<times> nat" where
  "generate_full_loop_mode training draws P multinomial 0 step st = Inr st"
| "generate_full_loop_mode training draws P multinomial (Suc n) step st =
     (case full_step_mode training draws P multinomial step st of
        Inl e \<Rightarrow> Inl e
      | Inr st' \<Rightarrow> generate_full_loop_mode training draws P multinomial n (Suc step) st')"

definition generate_full_mode ::
  "bool \<Rightarrow> (nat \<Rightarrow> bool) \<Rightarrow> nat \<Rightarrow> model_params \<Rightarrow> (nat \<Rightarrow> vec \<Rightarrow> nat) \<Rightarrow> nat list \<Rightarrow> nat \<Rightarrow>
   error + nat list" where
  "generate_full_mode training draws pos P multinomial idx max_new_tokens =
     map_sum id fst (generate_full_loop_mode training draws P multinomial max_new_tokens 0 (idx, pos))"

subsection \<open>Derived notions used in the proofs\<close>

text \<open>
  The row of head \<open>n\<close> in a projection of the row \<open>r\<close>, the projections of a whole
  context, and the key/value pair that attention computes from a context.
\<close>

definition hrow :: "mat \<Rightarrow> nat \<Rightarrow> vec \<Rightarrow> vec" where
  "hrow W n r = take head_size (drop (n * head_size) (linear_nobias W r))"

definition heads_of :: "mat \<Rightarrow> mat \<Rightarrow> mat list" where
  "heads_of W ctx = map (\<lambda>n. map (hrow W n) ctx) [0..<n_head]"

definition kv_of :: "mha_params \<Rightarrow> mat \<Rightarrow> kvcache" where
  "kv_of p ctx = (heads_of (w_key p) ctx, heads_of (w_value p) ctx)"

text \<open>
  The scaled score of a query row against a context row in head \<open>n\<close>, the output of
  head \<open>n\<close> for a query that attends to a whole context, and the output of the attention
  layer for that query.
\<close>

definition score :: "mha_params \<Rightarrow> nat \<Rightarrow> vec \<Rightarrow> vec \<Rightarrow> real" where
  "score p n r c = dot (hrow (w_query p) n r) (hrow (w_key p) n c) * (1 / sqrt (real head_size))"

definition attend :: "mha_params \<Rightarrow> nat \<Rightarrow> vec \<Rightarrow> mat \<Rightarrow> vec" where
  "attend p n r ctx =
     weighted_sum head_size (softmax (map (\<lambda>c. Finite (score p n r c)) ctx))
       (map (hrow (w_value p) n) ctx)"

definition attn_out :: "mha_params \<Rightarrow> mat \<Rightarrow> vec \<Rightarrow> vec" where
  "attn_out p ctx r = linear (proj_w p) (proj_b p) (concat (map (\<lambda>n. attend p n r ctx) [0..<n_head]))"

text \<open>
  The output row of a block for the last row of a context, the output of a block for a
  whole sequence in which every position attends to the positions up to itself, the
  activations after a stack of blocks, and the caches such a pass leaves behind.
\<close>

definition block_out :: "block_params \<Rightarrow> mat \<Rightarrow> vec" where
  "block_out b ctx =
     (let r = last ctx;
          a = attn_out (sa_heads b) (map (layer_norm (ln1 b)) ctx) (layer_norm (ln1 b) r);
          r' = vadd r a
      in vadd r' (ffwd_row (ffwd b) (layer_norm (ln2 b) r')))"

definition layer :: "block_params \<Rightarrow> mat \<Rightarrow> mat" where
  "layer b xs = map (\<lambda>i. block_out b (take (Suc i) xs)) [0..<length xs]"

definition kv_in :: "block_params \<Rightarrow> mat \<Rightarrow> kvcache" where
  "kv_in b xs = kv_of (sa_heads b) (map (layer_norm (ln1 b)) xs)"

fun acts :: "block_params list \<Rightarrow> mat \<Rightarrow> mat" where
  "acts [] xs = xs"
| "acts (b # bs) xs = acts bs (layer b xs)"

fun caches_of :: "block_params list \<Rightarrow> mat \<Rightarrow> kvcache list" where
  "caches_of [] xs = []"
| "caches_of (b # bs) xs = kv_in b xs # caches_of bs (layer b xs)"

text \<open>
  The embedded sequence, the probabilities for the token after a sequence, the state of
  the generation loop that belongs to a sequence, and the sequence after \<open>k\<close> sampled
  tokens.
\<close>

definition emb :: "model_params \<Rightarrow> nat list \<Rightarrow> mat" where
  "emb P idx =
     map (\<lambda>t. vadd (token_embedding_table P ! (idx ! t)) (position_embedding_table P ! t)) [0..<length idx]"

definition next_probs :: "model_params \<Rightarrow> nat list \<Rightarrow> vec" where
  "next_probs P seq = softmax (map Finite (last (lm_logits P (acts (blocks P) (emb P seq)))))"

definition state_of :: "model_params \<Rightarrow> nat list \<Rightarrow> gen_state" where
  "state_of P seq = ([last seq], map Some (caches_of (blocks P) (emb P (butlast seq))), seq)"

fun rollout :: "model_params \<Rightarrow> (nat \<Rightarrow> vec \<Rightarrow> nat) \<Rightarrow> nat list \<Rightarrow> nat \<Rightarrow> nat list" where
  "rollout P mn idx 0 = idx"
| "rollout P mn idx (Suc k) = rollout P mn idx k @ [mn k (next_probs P (rollout P mn idx k))]"

text \<open>
  A row whose first coordinate is \<open>s\<close> and whose other coordinates are zero, and the
  cache of \<open>K\<close> time-steps whose keys and values are zero.
\<close>

definition unit_row :: "real \<Rightarrow> vec" where
  "unit_row s = s # replicate (n_embd - 1) 0"

definition zero_kv :: "nat \<Rightarrow> kvcache" where
  "zero_kv K =
     (replicate n_head (replicate K (replicate head_size 0)),
      replicate n_head (replicate K (replicate head_size 0)))"

subsection \<open>Example parameters\<close>

text \<open>
  A model with the shapes of the source and a vocabulary of three symbols, all of whose
  weights are zero; a single head of size 64 whose weights are one; and a sampler that
  always draws the first symbol.
\<close>

definition example_mha :: mha_params where
  "example_mha =
     \<lparr>w_key = replicate n_embd (replicate n_embd 0),
      w_query = replicate n_embd (replicate n_embd 0),
      w_value = replicate n_embd (replicate n_embd 0),
      proj_w = replicate n_embd (replicate n_embd 0),
      proj_b = replicate n_embd 0\<rparr>"

definition example_block :: block_params where
  "example_block =
     \<lparr>sa_heads = example_mha,
      ffwd = \<lparr>w1 = replicate (4 * n_embd) (replicate n_embd 0), b1 = replicate (4 * n_embd) 0,
              w2 = replicate n_embd (replicate (4 * n_embd) 0), b2 = replicate n_embd 0\<rparr>,
      ln1 = \<lparr>ln_weight = replicate n_embd 1, ln_bias = replicate n_embd 0\<rparr>,
      ln2 = \<lparr>ln_weight = replicate n_embd 1, ln_bias = replicate n_embd 0\<rparr>\<rparr>"

definition example_model :: model_params where
  "example_model =
     \<lparr>token_embedding_table = replicate 3 (replicate n_embd 0),
      position_embedding_table = replicate block_size (replicate n_embd 0),
      blocks = replicate n_layer example_block,
      ln_f = \<lparr>ln_weight = replicate n_embd 1, ln_bias = replicate n_embd 0\<rparr>,
      lm_head_w = replicate 3 (replicate n_embd 0),
      lm_head_b = replicate 3 0\<rparr>"

definition example_head :: head_params where
  "example_head =
     \<lparr>h_key = replicate 64 (replicate n_embd 1),
      h_query = replicate 64 (replicate n_embd 1),
      h_value = replicate 64 (replicate n_embd 1)\<rparr>"

definition first_token :: "nat \<Rightarrow> vec \<Rightarrow> nat" where
  "first_token step probs = 0"

text \<open>
  A model with the shapes of the source and a vocabulary of three symbols in which dropout
  is visible in the next token. Its attention layers have the weights zero. The
  feed-forward module of every block returns the row \<open>unit_row 1\<close> at every position,
  before its dropout. The final normalisation scales the first coordinate by one and the
  others by zero, and the output layer maps a normalised row with first coordinate \<open>y\<close>
  to the logits \<open>[y, - y, 0]\<close>. \<open>keep_one\<close> is the sequence of Bernoulli draws in which
  the draw number 5040 (counted from zero) succeeds and every other draw fails.
  \<open>inverse_cdf u\<close> turns a number \<open>u\<close> drawn uniformly from the unit interval into the
  index sampled from a list of probabilities: the first index at which the cumulated
  probability exceeds \<open>u\<close>. \<open>draw_two_fifths\<close> is the sampler whose uniform draw is
  \<open>2 / 5\<close> at every step.
\<close>

definition dropout_block :: block_params where
  "dropout_block =
     \<lparr>sa_heads = example_mha,
      ffwd = \<lparr>w1 = replicate (4 * n_embd) (replicate n_embd 0), b1 = replicate (4 * n_embd) 0,
              w2 = replicate n_embd (replicate (4 * n_embd) 0), b2 = unit_row 1\<rparr>,
      ln1 = \<lparr>ln_weight = replicate n_embd 1, ln_bias = replicate n_embd 0\<rparr>,
      ln2 = \<lparr>ln_weight = replicate n_embd 1, ln_bias = replicate n_embd 0\<rparr>\<rparr>"

definition dropout_model :: model_params where
  "dropout_model =
     \<lparr>token_embedding_table = replicate 3 (replicate n_embd 0),
      position_embedding_table = replicate block_size (replicate n_embd 0),
      blocks = replicate n_layer dropout_block,
      ln_f = \<lparr>ln_weight = unit_row 1, ln_bias = replicate n_embd 0\<rparr>,
      lm_head_w = [unit_row 1, unit_row (- 1), replicate n_embd 0],
      lm_head_b = [0, 0, 0]\<rparr>"

definition keep_one :: "nat \<Rightarrow> bool" where
  "keep_one i \<longleftrightarrow> i = 5040"

fun inverse_cdf :: "real \<Rightarrow> vec \<Rightarrow> nat" where
  "inverse_cdf u [] = 0"
| "inverse_cdf u (p # ps) = (if u < p then 0 else Suc (inverse_cdf (u - p) ps))"

definition draw_two_fifths :: "nat \<Rightarrow> vec \<Rightarrow> nat" where
  "draw_two_fifths step probs = inverse_cdf (2 / 5) probs"

section \<open>Properties of the codec\<close>

lemma foldl_upd_eq: "foldl (\<lambda>m (k, v). m(k \<mapsto> v)) m0 kvs = m0 ++ map_of (rev kvs)"
proof (induction kvs arbitrary: m0)
  case Nil
  show ?case by simp
next
  case (Cons a kvs)
  obtain k v where a: "a = (k, v)" by (cases a)
  have "foldl (\<lambda>m (k, v). m(k \<mapsto> v)) m0 (a # kvs) = foldl (\<lambda>m (k, v). m(k \<mapsto> v)) (m0(k \<mapsto> v)) kvs"
    by (simp only: a foldl_Cons prod.case)
  also have "\<dots> = m0(k \<mapsto> v) ++ map_of (rev kvs)"
    by (rule Cons.IH)
  also have "\<dots> = m0 ++ ([k \<mapsto> v] ++ map_of (rev kvs))"
    by (simp add: map_add_assoc[symmetric])
  also have "\<dots> = m0 ++ map_of (rev (a # kvs))"
    by (simp add: a)
  finally show ?case .
qed

lemma dict_of_eq: "dict_of kvs = map_of (rev kvs)"
  by (simp add: dict_of_def foldl_upd_eq)

lemma dict_of_Some_iff:
  assumes "distinct (map fst kvs)"
  shows "dict_of kvs k = Some v \<longleftrightarrow> (k, v) \<in> set kvs"
proof -
  have "distinct (map fst (rev kvs))" using assms by (simp add: rev_map[symmetric])
  then show ?thesis by (simp add: dict_of_eq)
qed

lemma dict_of_None_iff: "dict_of kvs k = None \<longleftrightarrow> k \<notin> fst ` set kvs"
  by (simp add: dict_of_eq map_of_eq_None_iff)

lemma chars_distinct: "distinct (chars text)" and chars_set: "set (chars text) = set text"
  by (simp_all add: chars_def)

lemma stoi_nth: "i < length (chars text) \<Longrightarrow> stoi text (chars text ! i) = Some i"
proof -
  assume i: "i < length (chars text)"
  let ?kvs = "map (\<lambda>(i, ch). (ch, i)) (enumerate 0 (chars text))"
  have m: "map fst ?kvs = chars text"
    by (simp add: comp_def case_prod_unfold)
  have "(chars text ! i, i) \<in> set ?kvs"
    using i unfolding set_map by (intro image_eqI[where x = "(i, chars text ! i)"]) (simp_all add: in_set_enumerate_eq)
  then show ?thesis unfolding stoi_def
    using dict_of_Some_iff[of ?kvs] m chars_distinct[of "text"] by simp
qed

lemma stoi_None: "c \<notin> set text \<Longrightarrow> stoi text c = None"
proof -
  assume "c \<notin> set text"
  then have "c \<notin> set (chars text)" by (simp add: chars_set)
  then show ?thesis
    unfolding stoi_def dict_of_None_iff by (auto simp: in_set_enumerate_eq)
qed

lemma itos_nth: "i < length (chars text) \<Longrightarrow> itos text i = Some (chars text ! i)"
proof -
  assume i: "i < length (chars text)"
  let ?kvs = "map (\<lambda>(i, ch). (i, ch)) (enumerate 0 (chars text))"
  have e: "?kvs = enumerate 0 (chars text)" by (simp add: case_prod_unfold)
  have "(i, chars text ! i) \<in> set ?kvs"
    using i by (simp add: e in_set_enumerate_eq)
  then show ?thesis unfolding itos_def
    using dict_of_Some_iff[of ?kvs] by (simp add: e)
qed

lemma stoi_in: "c \<in> set text \<Longrightarrow> \<exists>i < length (chars text). chars text ! i = c \<and> stoi text c = Some i"
proof -
  assume "c \<in> set text"
  then have "c \<in> set (chars text)" by (simp add: chars_set)
  then obtain i where "i < length (chars text)" "chars text ! i = c" by (auto simp: in_set_conv_nth)
  then show ?thesis using stoi_nth[of i "text"] by auto
qed

text \<open>
  Claim C5. For every string \<open>s\<close> whose characters all occur in the training corpus,
  \<^verbatim>\<open>encode\<close> succeeds and \<^verbatim>\<open>decode\<close> of its result gives \<open>s\<close> back.
\<close>

theorem decode_encode_roundtrip:
  "set s \<subseteq> set text \<Longrightarrow> \<exists>ids. encode text s = Inr ids \<and> decode text ids = Inr s"
proof (induction s)
  case Nil
  show ?case by (simp add: encode_def decode_def)
next
  case (Cons c s)
  then obtain ids where ids: "encode text s = Inr ids" "decode text ids = Inr s" by auto
  from Cons.prems obtain i where i: "i < length (chars text)" "chars text ! i = c" "stoi text c = Some i"
    using stoi_in[of c "text"] by auto
  have "encode text (c # s) = Inr (i # ids)"
    using ids(1) i(3) by (simp add: encode_def getitem_def)
  moreover have "decode text (i # ids) = Inr (c # s)"
    using ids(2) itos_nth[OF i(1)] i(2) by (simp add: decode_def getitem_def)
  ultimately show ?case by blast
qed

text \<open>
  Claim C6. A string with a character that does not occur in the corpus makes
  \<^verbatim>\<open>encode\<close> raise \<^verbatim>\<open>KeyError\<close> for the first such character: the call returns no list
  of IDs at all, neither a partial one nor one with a substituted ID.
\<close>

theorem encode_unseen_raises:
  "set pre \<subseteq> set text \<Longrightarrow> c \<notin> set text \<Longrightarrow> encode text (pre @ c # post) = Inl (KeyError c)"
proof (induction pre)
  case Nil
  then show ?case by (simp add: encode_def getitem_def stoi_None)
next
  case (Cons a pre)
  then obtain i where "stoi text a = Some i" using stoi_in[of a "text"] by auto
  with Cons show ?case by (simp add: encode_def getitem_def)
qed

theorem decode_encode_roundtrip_witness:
  "set ''low'' \<subseteq> set ''hello world'' \<and>
   (\<exists>ids. encode ''hello world'' ''low'' = Inr ids \<and> decode ''hello world'' ids = Inr ''low'')"
  using decode_encode_roundtrip[of "''low''" "''hello world''"] by simp

theorem encode_unseen_raises_witness:
  "set ''low'' \<subseteq> set ''hello world'' \<and> CHR ''z'' \<notin> set ''hello world'' \<and>
   encode ''hello world'' ''lowz!'' = Inl (KeyError (CHR ''z''))"
  using encode_unseen_raises[of "''low''" "''hello world''" "CHR ''z''" "''!''"] by simp

section \<open>Attention over a context\<close>

text \<open>
  With a fresh cache, or with the cache of a history and one new row, multi-head attention
  returns for every query row the output \<open>attn_out\<close> over the context up to that row.
\<close>

lemma n_head_pos: "0 < n_head" by (simp add: n_head_def)

lemma block_size_ge2: "2 \<le> block_size" by (simp add: block_size_def)

lemma map_index: "map f xs = map (\<lambda>i. f (xs ! i)) [0..<length xs]"
  by (rule nth_equalityI) simp_all

lemma map_zip_same: "map F (zip (map g xs) (map h xs)) = map (\<lambda>x. F (g x, h x)) xs"
  by (induction xs) simp_all

lemma split_heads_linear: "split_heads (map (linear_nobias W) x) = heads_of W x"
  by (simp add: split_heads_def heads_of_def hrow_def comp_def)

lemma time_len_heads_of: "time_len (heads_of W ctx) = length ctx"
  using n_head_pos by (simp add: time_len_def heads_of_def upt_conv_Cons)

lemma last_n_short: "length xs \<le> n \<Longrightarrow> last_n n xs = xs"
  by (simp add: last_n_def)

lemma length_last_n: "length (last_n n xs) = min n (length xs)"
  by (simp add: last_n_def)

lemma cat_time_heads_of: "cat_time (heads_of W hist) (heads_of W x) = heads_of W (hist @ x)"
  by (simp add: cat_time_def heads_of_def map_zip_same)

lemma trunc_heads_of:
  "length hist \<le> Suc block_size \<Longrightarrow> map (last_n (Suc block_size)) (heads_of W hist) = heads_of W hist"
  by (simp add: heads_of_def last_n_short comp_def)

lemma mha_kv_nocache: "mha_kv p x use_cache None = kv_of p x"
  by (simp add: mha_kv_def Let_def split_heads_linear kv_of_def)

lemma mha_kv_cache:
  "length hist \<le> Suc block_size \<Longrightarrow> mha_kv p x True (Some (kv_of p hist)) = kv_of p (hist @ x)"
  by (simp add: mha_kv_def Let_def split_heads_linear kv_of_def trunc_heads_of cat_time_heads_of)

lemma mha_att_wei_char:
  assumes "mha_kv p x use_cache c = kv_of p ctx"
  shows "mha_att_wei p x use_cache c =
         map (\<lambda>n. map (\<lambda>i. map (\<lambda>j. score p n (x ! i) (ctx ! j)) [0..<length ctx]) [0..<length x]) [0..<n_head]"
proof -
  have "mha_att_wei p x use_cache c =
        map (\<lambda>n. smul (matmul_nt (map (hrow (w_query p) n) x) (map (hrow (w_key p) n) ctx)) (1 / sqrt (real head_size))) [0..<n_head]"
    by (simp add: mha_att_wei_def assms kv_of_def split_heads_linear einsum_qk_def heads_of_def map_zip_same)
  also have "\<dots> = map (\<lambda>n. map (\<lambda>r. map (\<lambda>c. score p n r c) ctx) x) [0..<n_head]"
    by (simp add: smul_def matmul_nt_def score_def comp_def)
  also have "\<dots> = map (\<lambda>n. map (\<lambda>i. map (\<lambda>j. score p n (x ! i) (ctx ! j)) [0..<length ctx]) [0..<length x]) [0..<n_head]"
    by (subst map_index[of _ x], subst map_index[of _ ctx]) simp
  finally show ?thesis .
qed

lemma masked_fill_tril_char:
  assumes "T \<le> block_size" and "K = T \<or> T = 1"
  shows "masked_fill_tril T K (map (\<lambda>n. map (\<lambda>i. map (\<lambda>j. s n i j) [0..<K]) [0..<T]) ns) =
         Inr (map (\<lambda>n. map (\<lambda>i. map (\<lambda>j. if j \<le> i + (K - T) then Finite (s n i j) else Neg_inf) [0..<K]) [0..<T]) ns)"
proof -
  have M: "min T block_size = T" using assms(1) by simp
  have b: "broadcastable T T \<and> broadcastable T K" using assms(2) by (auto simp: broadcastable_def)
  have e: "\<And>f n. enumerate 0 (map f [0..<n]) = map (\<lambda>k. (k, f k)) [0..<n]"
    by (simp add: enumerate_map_upt)
  show ?thesis
    unfolding masked_fill_tril_def masked_def Let_def M
    using b assms(2) by (auto simp add: e comp_def tril_def)
qed

lemma causal_row_split:
  assumes "Suc d \<le> K"
  shows "map (\<lambda>j. if j \<le> d then Finite (g j) else Neg_inf) [0..<K] =
         map (\<lambda>j. Finite (g j)) [0..<Suc d] @ replicate (K - Suc d) Neg_inf"
proof -
  have "[0..<K] = [0..<Suc d] @ [Suc d..<K]"
    using assms by (metis le_add_diff_inverse upt_add_eq_append zero_le)
  moreover have "map (\<lambda>j. if j \<le> d then Finite (g j) else Neg_inf) [0..<Suc d] = map (\<lambda>j. Finite (g j)) [0..<Suc d]"
    by (rule map_cong) auto
  moreover have "map (\<lambda>j. if j \<le> d then Finite (g j) else Neg_inf) [Suc d..<K] = replicate (K - Suc d) Neg_inf"
    by (rule nth_equalityI) auto
  ultimately show ?thesis by (simp only: map_append)
qed

lemma softmax_masked_tail:
  "softmax (a @ replicate r Neg_inf) = softmax a @ replicate r 0"
  by (simp add: softmax_def sum_list_replicate)

lemma sum_list_zero_weights:
  "sum_list (map (\<lambda>(wk, vk). wk * vk ! c) (zip (replicate r 0) vs)) = (0::real)"
proof (induction r arbitrary: vs)
  case 0
  show ?case by simp
next
  case (Suc r)
  show ?case by (cases vs) (simp_all add: Suc.IH)
qed

lemma weighted_sum_zero_tail:
  "weighted_sum h (a @ replicate r 0) vs = weighted_sum h a (take (length a) vs)"
proof -
  have "\<And>c. sum_list (map (\<lambda>(wk, vk). wk * vk ! c) (zip (a @ replicate r 0) vs)) =
             sum_list (map (\<lambda>(wk, vk). wk * vk ! c) (zip a (take (length a) vs)))"
    by (simp add: zip_append1 sum_list_zero_weights)
  then show ?thesis by (simp add: weighted_sum_def)
qed

lemma masked_row_attend:
  assumes "Suc d \<le> length ctx"
  shows "weighted_sum head_size
           (softmax (map (\<lambda>j. if j \<le> d then Finite (score p n r (ctx ! j)) else Neg_inf) [0..<length ctx]))
           (map (hrow (w_value p) n) ctx) =
         attend p n r (take (Suc d) ctx)"
proof -
  have idx: "map (\<lambda>j. Finite (score p n r (ctx ! j))) [0..<Suc d] =
             map (\<lambda>c. Finite (score p n r c)) (take (Suc d) ctx)"
    using assms by (intro nth_equalityI) (simp_all del: upt_Suc)
  have len: "length (softmax (map (\<lambda>c. Finite (score p n r c)) (take (Suc d) ctx))) = Suc d"
    using assms by (simp add: softmax_def)
  show ?thesis
    unfolding causal_row_split[OF assms] softmax_masked_tail weighted_sum_zero_tail idx len
    by (simp add: attend_def take_map)
qed

lemma mha_forward_char:
  assumes kv: "mha_kv p x uc c = kv_of p ctx"
    and T: "length x \<le> block_size"
    and K: "length ctx = length x \<or> length x = 1"
    and le: "length x \<le> length ctx"
  shows "mha_forward p x uc c =
         Inr (map (\<lambda>i. attn_out p (take (Suc (i + (length ctx - length x))) ctx) (x ! i)) [0..<length x],
              if uc then Some (kv_of p ctx) else c)"
proof -
  let ?T = "length x" and ?K = "length ctx"
  let ?row = "\<lambda>n i. map (\<lambda>j. if j \<le> i + (?K - ?T) then Finite (score p n (x ! i) (ctx ! j)) else Neg_inf) [0..<?K]"
  have masked: "masked_fill_tril ?T ?K (mha_att_wei p x uc c) =
        Inr (map (\<lambda>n. map (\<lambda>i. ?row n i) [0..<?T]) [0..<n_head])"
    unfolding mha_att_wei_char[OF kv] by (rule masked_fill_tril_char[OF T K])
  have av: "einsum_av (map (map softmax) (map (\<lambda>n. map (\<lambda>i. ?row n i) [0..<?T]) [0..<n_head]))
              (heads_of (w_value p) ctx) =
            map (\<lambda>n. map (\<lambda>i. weighted_sum head_size (softmax (?row n i)) (map (hrow (w_value p) n) ctx)) [0..<?T]) [0..<n_head]"
    by (simp add: einsum_av_def heads_of_def map_zip_same comp_def)
  have row: "\<And>n i. i < ?T \<Longrightarrow>
      weighted_sum head_size (softmax (?row n i)) (map (hrow (w_value p) n) ctx) =
      attend p n (x ! i) (take (Suc (i + (?K - ?T))) ctx)"
    using le by (intro masked_row_attend) linarith
  have av': "map (\<lambda>n. map (\<lambda>i. weighted_sum head_size (softmax (?row n i)) (map (hrow (w_value p) n) ctx)) [0..<?T]) [0..<n_head] =
             map (\<lambda>n. map (\<lambda>i. attend p n (x ! i) (take (Suc (i + (?K - ?T))) ctx)) [0..<?T]) [0..<n_head]"
    by (intro map_cong refl) (simp add: row)
  have merge: "merge_heads ?T (map (\<lambda>n. map (\<lambda>i. attend p n (x ! i) (take (Suc (i + (?K - ?T))) ctx)) [0..<?T]) [0..<n_head]) =
               map (\<lambda>i. concat (map (\<lambda>n. attend p n (x ! i) (take (Suc (i + (?K - ?T))) ctx)) [0..<n_head])) [0..<?T]"
    unfolding merge_heads_def by (intro map_cong refl) (simp add: comp_def)
  have "mha_forward p x uc c =
        (case masked_fill_tril ?T ?K (mha_att_wei p x uc c) of
           Inl e \<Rightarrow> Inl e
         | Inr att \<Rightarrow>
             Inr (map (linear (proj_w p) (proj_b p))
                    (merge_heads ?T (einsum_av (map (map softmax) att) (heads_of (w_value p) ctx))),
                  if uc then Some (kv_of p ctx) else c))"
    by (simp add: mha_forward_def Let_def kv kv_of_def time_len_heads_of dropout_def split: sum.splits)
  also have "\<dots> = Inr (map (linear (proj_w p) (proj_b p))
                    (map (\<lambda>i. concat (map (\<lambda>n. attend p n (x ! i) (take (Suc (i + (?K - ?T))) ctx)) [0..<n_head])) [0..<?T]),
                  if uc then Some (kv_of p ctx) else c)"
    unfolding masked sum.case av av' merge ..
  finally show ?thesis by (simp add: attn_out_def comp_def)
qed

lemma mha_forward_too_long:
  assumes "block_size < length x"
  shows "mha_forward p x uc c = Inl (RuntimeError Masked_fill)"
proof -
  have "\<not> broadcastable (min (length x) block_size) (length x)"
    using assms block_size_ge2 by (auto simp: broadcastable_def min_def)
  then show ?thesis
    by (simp add: mha_forward_def masked_fill_tril_def Let_def split: prod.splits)
qed

lemma mha_forward_fresh:
  assumes "length x \<le> block_size"
  shows "mha_forward p x uc None =
         Inr (map (\<lambda>i. attn_out p (take (Suc i) x) (x ! i)) [0..<length x],
              if uc then Some (kv_of p x) else None)"
  using mha_forward_char[OF mha_kv_nocache assms, of p uc] by simp

lemma mha_forward_step:
  assumes "length hist \<le> Suc block_size"
  shows "mha_forward p [r] True (Some (kv_of p hist)) =
         Inr ([attn_out p (hist @ [r]) r], Some (kv_of p (hist @ [r])))"
proof -
  have "length [r] \<le> block_size" using block_size_ge2 by simp
  from mha_forward_char[OF mha_kv_cache[OF assms] this]
  show ?thesis by simp
qed

section \<open>Blocks and stacks of blocks\<close>

lemma last_take_Suc: "i < length xs \<Longrightarrow> last (take (Suc i) xs) = xs ! i"
  by (simp add: take_Suc_conv_app_nth)

lemma tadd_map_same: "tadd (map g ns) (map h ns) = map (\<lambda>i. vadd (g i) (h i)) ns"
  by (simp add: tadd_def map_zip_same)

lemma tadd_index: "tadd xs (map g [0..<length xs]) = map (\<lambda>i. vadd (xs ! i) (g i)) [0..<length xs]"
  by (rule nth_equalityI) (simp_all add: tadd_def)

lemma block_forward_fresh:
  assumes "length x \<le> block_size"
  shows "block_forward b x uc None = Inr (layer b x, if uc then Some (kv_in b x) else None)"
proof -
  let ?n = "map (layer_norm (ln1 b)) x"
  have m: "mha_forward (sa_heads b) ?n uc None =
           Inr (map (\<lambda>i. attn_out (sa_heads b) (take (Suc i) ?n) (?n ! i)) [0..<length x],
                if uc then Some (kv_of (sa_heads b) ?n) else None)"
    using mha_forward_fresh[of ?n "sa_heads b" uc] assms by simp
  have rows: "\<And>i. i < length x \<Longrightarrow>
      (let r' = vadd (x ! i) (attn_out (sa_heads b) (take (Suc i) ?n) (?n ! i))
       in vadd r' (ffwd_row (ffwd b) (layer_norm (ln2 b) r'))) = block_out b (take (Suc i) x)"
    by (simp add: block_out_def Let_def take_map last_take_Suc)
  have "block_forward b x uc None =
        Inr (map (\<lambda>i. let r' = vadd (x ! i) (attn_out (sa_heads b) (take (Suc i) ?n) (?n ! i))
                       in vadd r' (ffwd_row (ffwd b) (layer_norm (ln2 b) r'))) [0..<length x],
             if uc then Some (kv_in b x) else None)"
    unfolding block_forward_def m
    by (simp add: tadd_index ffwd_forward_def Let_def kv_in_def tadd_map_same)
  also have "\<dots> = Inr (layer b x, if uc then Some (kv_in b x) else None)"
    unfolding layer_def using rows by (simp cong: map_cong)
  finally show ?thesis .
qed

lemma block_forward_step:
  assumes "length hist \<le> Suc block_size"
  shows "block_forward b [r] True (Some (kv_in b hist)) =
         Inr ([block_out b (hist @ [r])], Some (kv_in b (hist @ [r])))"
proof -
  have "mha_forward (sa_heads b) (map (layer_norm (ln1 b)) [r]) True (Some (kv_in b hist)) =
        Inr ([attn_out (sa_heads b) (map (layer_norm (ln1 b)) (hist @ [r])) (layer_norm (ln1 b) r)],
             Some (kv_in b (hist @ [r])))"
    using mha_forward_step[of "map (layer_norm (ln1 b)) hist" "sa_heads b" "layer_norm (ln1 b) r"] assms
    by (simp add: kv_in_def)
  then show ?thesis
    by (simp add: block_forward_def tadd_def ffwd_forward_def block_out_def Let_def)
qed

lemma length_layer: "length (layer b xs) = length xs"
  by (simp add: layer_def)

lemma layer_take: "take m (layer b xs) = layer b (take m xs)"
proof (rule nth_equalityI)
  show "length (take m (layer b xs)) = length (layer b (take m xs))"
    by (simp add: layer_def)
next
  fix i assume "i < length (take m (layer b xs))"
  then have i: "i < m" "i < length xs" by (simp_all add: layer_def)
  then have "take (Suc i) (take m xs) = take (Suc i) xs" by (simp add: min_def)
  then show "take m (layer b xs) ! i = layer b (take m xs) ! i"
    using i by (simp add: layer_def)
qed

lemma layer_snoc: "layer b (xs @ [r]) = layer b xs @ [block_out b (xs @ [r])]"
proof -
  have "layer b xs = take (length xs) (layer b (xs @ [r]))"
    by (simp add: layer_take)
  moreover have "layer b (xs @ [r]) ! length xs = block_out b (xs @ [r])"
    by (simp add: layer_def nth_append del: upt_Suc)
  moreover have "length (layer b (xs @ [r])) = Suc (length xs)"
    by (simp add: length_layer)
  ultimately show ?thesis
    by (metis take_Suc_conv_app_nth lessI take_all order_refl)
qed

lemma length_acts: "length (acts bs xs) = length xs"
  by (induction bs arbitrary: xs) (simp_all add: length_layer)

lemma acts_take: "take m (acts bs xs) = acts bs (take m xs)"
  by (induction bs arbitrary: xs) (simp_all add: layer_take)

lemma run_blocks_fresh:
  assumes "length x \<le> block_size"
  shows "run_blocks (zip bs (replicate (length bs) None)) x uc =
         Inr (acts bs x, if uc then map Some (caches_of bs x) else replicate (length bs) None)"
  using assms
proof (induction bs arbitrary: x)
  case Nil
  show ?case by simp
next
  case (Cons b bs)
  have "length (layer b x) \<le> block_size" using Cons.prems by (simp add: length_layer)
  from Cons.IH[OF this] Cons.prems show ?case
    by (simp add: block_forward_fresh)
qed

lemma run_blocks_step:
  assumes "length hist \<le> Suc block_size"
  shows "run_blocks (zip bs (map Some (caches_of bs hist))) [r] True =
         Inr ([last (acts bs (hist @ [r]))], map Some (caches_of bs (hist @ [r])))"
  using assms
proof (induction bs arbitrary: hist r)
  case Nil
  show ?case by simp
next
  case (Cons b bs)
  have "length (layer b hist) \<le> Suc block_size" using Cons.prems by (simp add: length_layer)
  from Cons.IH[OF this, of "block_out b (hist @ [r])"] Cons.prems show ?case
    by (simp add: block_forward_step layer_snoc)
qed

section \<open>The forward pass\<close>

lemma n_layer_pos: "0 < n_layer" by (simp add: n_layer_def)

lemma map_result_embedding:
  "map_result (embedding s tab) is =
     (if list_all (\<lambda>i. i < length tab) is then Inr (map (nth tab) is) else Inl (IndexError s))"
  by (induction "is") (simp_all add: embedding_def)

lemma positions_in_range:
  "list_all (\<lambda>i. i < L) (map (\<lambda>t. t + h) [0..<T]) \<longleftrightarrow> T = 0 \<or> T + h \<le> L"
proof (cases T)
  case 0
  then show ?thesis by simp
next
  case (Suc m)
  have "list_all (\<lambda>i. i < L) (map (\<lambda>t. t + h) [0..<T]) \<longleftrightarrow> (\<forall>t<T. t + h < L)"
    by (simp add: list_all_length)
  also have "\<dots> \<longleftrightarrow> m + h < L"
    using Suc by (auto simp: less_Suc_eq_le) 
  finally show ?thesis using Suc by auto
qed

lemma embed_char:
  "embed P idx h =
     (if \<not> valid P idx then Inl (IndexError Token_embedding)
      else if idx \<noteq> [] \<and> length (position_embedding_table P) < length idx + h
           then Inl (IndexError Position_embedding)
      else Inr (map (\<lambda>t. vadd (token_embedding_table P ! (idx ! t)) (position_embedding_table P ! (t + h)))
                  [0..<length idx]))"
proof -
  have t: "tadd (map (nth (token_embedding_table P)) idx)
             (map (nth (position_embedding_table P)) (map (\<lambda>t. t + h) [0..<length idx])) =
           map (\<lambda>t. vadd (token_embedding_table P ! (idx ! t)) (position_embedding_table P ! (t + h)))
             [0..<length idx]"
    by (rule nth_equalityI) (simp_all add: tadd_def)
  show ?thesis
  proof (cases "valid P idx")
    case False
    then show ?thesis by (simp add: embed_def map_result_embedding valid_def)
  next
    case True
    show ?thesis
    proof (cases "idx \<noteq> [] \<and> length (position_embedding_table P) < length idx + h")
      case True
      with \<open>valid P idx\<close> show ?thesis
        by (simp add: embed_def map_result_embedding valid_def positions_in_range)
    next
      case False
      then have "length idx = 0 \<or> length idx + h \<le> length (position_embedding_table P)" by auto
      with False \<open>valid P idx\<close> show ?thesis
        unfolding embed_def map_result_embedding positions_in_range
        by (simp add: valid_def t del: map_map)
    qed
  qed
qed

lemma length_emb: "length (emb P idx) = length idx"
  by (simp add: emb_def)

lemma emb_snoc:
  "emb P (pre @ [tok]) =
   emb P pre @ [vadd (token_embedding_table P ! tok) (position_embedding_table P ! length pre)]"
  by (rule nth_equalityI) (auto simp: emb_def nth_append less_Suc_eq simp del: upt_Suc)

lemma history_length_fresh: "history_length (Some (replicate n_layer None)) = 0"
  by (simp add: history_length_def n_layer_def numeral_eq_Suc)

lemma history_length_caches:
  "bs \<noteq> [] \<Longrightarrow> history_length (Some (map Some (caches_of bs xs))) = length xs"
  by (cases bs) (simp_all add: history_length_def kv_in_def kv_of_def time_len_heads_of)

lemma lm_logits_last: "xs \<noteq> [] \<Longrightarrow> lm_logits P [last xs] = [last (lm_logits P xs)]"
  by (simp add: lm_logits_def last_map)

lemma forward_fresh:
  assumes "constructed P"
  shows "forward P idx None True (Some (replicate n_layer None)) =
     (if \<not> valid P idx then Inl (IndexError Token_embedding)
      else if block_size < length idx then Inl (IndexError Position_embedding)
      else Inr (lm_logits P (acts (blocks P) (emb P idx)), None,
                Some (map Some (caches_of (blocks P) (emb P idx)))))"
proof -
  have L: "length (position_embedding_table P) = block_size" "length (blocks P) = n_layer"
    using assms by (simp_all add: constructed_def)
  have r: "length idx \<le> block_size \<Longrightarrow>
        run_blocks (zip (blocks P) (replicate n_layer None)) (emb P idx) True =
        Inr (acts (blocks P) (emb P idx), map Some (caches_of (blocks P) (emb P idx)))"
    using run_blocks_fresh[of "emb P idx" "blocks P" True] by (simp add: L length_emb)
  have e: "embed P idx 0 =
     (if \<not> valid P idx then Inl (IndexError Token_embedding)
      else if block_size < length idx then Inl (IndexError Position_embedding)
      else Inr (emb P idx))"
    by (cases idx) (simp_all add: embed_char L emb_def)
  show ?thesis
  proof (cases "valid P idx \<and> length idx \<le> block_size")
    case True
    then show ?thesis by (simp add: forward_def history_length_fresh e r)
  next
    case False
    then show ?thesis by (auto simp add: forward_def history_length_fresh e)
  qed
qed

lemma forward_full_char:
  assumes "constructed P"
  shows "forward_full P idx =
     (if \<not> valid P idx then Inl (IndexError Token_embedding)
      else if block_size < length idx then Inl (IndexError Position_embedding)
      else Inr (lm_logits P (acts (blocks P) (emb P idx))))"
proof -
  have L: "length (position_embedding_table P) = block_size" "length (blocks P) = n_layer"
    using assms by (simp_all add: constructed_def)
  have r: "length idx \<le> block_size \<Longrightarrow>
        run_blocks (zip (blocks P) (replicate n_layer None)) (emb P idx) False =
        Inr (acts (blocks P) (emb P idx), replicate n_layer None)"
    using run_blocks_fresh[of "emb P idx" "blocks P" False] by (simp add: L length_emb)
  have e: "embed P idx 0 =
     (if \<not> valid P idx then Inl (IndexError Token_embedding)
      else if block_size < length idx then Inl (IndexError Position_embedding)
      else Inr (emb P idx))"
    by (cases idx) (simp_all add: embed_char L emb_def)
  show ?thesis
  proof (cases "valid P idx \<and> length idx \<le> block_size")
    case True
    then show ?thesis by (simp add: forward_full_def e r)
  next
    case False
    then show ?thesis by (auto simp add: forward_full_def e)
  qed
qed

lemma forward_step:
  assumes "constructed P" and "length pre \<le> block_size"
  shows "forward P [tok] None True (Some (map Some (caches_of (blocks P) (emb P pre)))) =
     (if \<not> valid P [tok] then Inl (IndexError Token_embedding)
      else if block_size \<le> length pre then Inl (IndexError Position_embedding)
      else Inr ([last (lm_logits P (acts (blocks P) (emb P (pre @ [tok]))))], None,
                Some (map Some (caches_of (blocks P) (emb P (pre @ [tok]))))))"
proof -
  have L: "length (position_embedding_table P) = block_size" "length (blocks P) = n_layer"
    using assms by (simp_all add: constructed_def)
  have ne: "blocks P \<noteq> []" using L(2) n_layer_pos by auto
  have h: "history_length (Some (map Some (caches_of (blocks P) (emb P pre)))) = length pre"
    using history_length_caches[OF ne] by (simp add: length_emb)
  let ?r = "vadd (token_embedding_table P ! tok) (position_embedding_table P ! length pre)"
  have r: "run_blocks (zip (blocks P) (map Some (caches_of (blocks P) (emb P pre)))) [?r] True =
        Inr ([last (acts (blocks P) (emb P (pre @ [tok])))],
             map Some (caches_of (blocks P) (emb P (pre @ [tok]))))"
    using run_blocks_step[of "emb P pre" "blocks P" ?r] assms(2) by (simp add: length_emb emb_snoc)
  have nonempty: "acts (blocks P) (emb P (pre @ [tok])) \<noteq> []"
    using length_acts[of "blocks P" "emb P (pre @ [tok])"] by (auto simp: length_emb simp del: length_acts)
  have e: "embed P [tok] (length pre) =
     (if \<not> valid P [tok] then Inl (IndexError Token_embedding)
      else if block_size \<le> length pre then Inl (IndexError Position_embedding)
      else Inr [?r])"
    by (simp add: embed_char L)
  show ?thesis
  proof (cases "valid P [tok] \<and> length pre < block_size")
    case True
    then show ?thesis
      using lm_logits_last[OF nonempty, of P] by (simp add: forward_def h e r)
  next
    case False
    then show ?thesis by (auto simp add: forward_def h e)
  qed
qed

section \<open>Generation with the cache and by full forward passes\<close>

lemma lm_logits_empty: "lm_logits P xs = [] \<longleftrightarrow> xs = []"
  by (simp add: lm_logits_def)

lemma logits_empty: "lm_logits P (acts (blocks P) (emb P seq)) = [] \<longleftrightarrow> seq = []"
  using length_acts[of "blocks P" "emb P seq"]
  by (simp add: lm_logits_empty length_emb del: length_acts) (metis length_0_conv length_emb)

lemma full_step_char:
  assumes "constructed P"
  shows "full_step P mn s seq =
     (if \<not> valid P seq then Inl (IndexError Token_embedding)
      else if block_size < length seq then Inl (IndexError Position_embedding)
      else if seq = [] then Inl (IndexError Last_position)
      else if next_probs P seq = [] then Inl (RuntimeError Multinomial)
      else Inr (seq @ [mn s (next_probs P seq)]))"
  by (simp add: full_step_def forward_full_char[OF assms] logits_empty next_probs_def Let_def)

lemma generate_step_first:
  assumes "constructed P"
  shows "generate_step P mn s (idx, replicate n_layer None, idx) =
         map_sum id (state_of P) (full_step P mn s idx)"
  by (simp add: generate_step_def forward_fresh[OF assms] full_step_char[OF assms] logits_empty
        next_probs_def Let_def state_of_def)

lemma generate_step_next:
  assumes "constructed P" and "seq \<noteq> []" and "valid P (butlast seq)" and "length (butlast seq) \<le> block_size"
  shows "generate_step P mn s (state_of P seq) = map_sum id (state_of P) (full_step P mn s seq)"
proof -
  obtain pre tok where seq: "seq = pre @ [tok]"
    using assms(2) by (metis append_butlast_last_id)
  have pre: "valid P pre" "length pre \<le> block_size" using assms(3,4) by (simp_all add: seq)
  have v: "valid P seq \<longleftrightarrow> valid P [tok]" using pre(1) by (simp add: seq valid_def)
  have l: "block_size < length seq \<longleftrightarrow> block_size \<le> length pre" by (auto simp: seq)
  show ?thesis
    unfolding full_step_char[OF assms(1)] v l
    by (simp add: generate_step_def state_of_def seq forward_step[OF assms(1) pre(2)] next_probs_def Let_def
          butlast_append)
qed

lemma full_step_Inr:
  assumes "constructed P" and "full_step P mn s seq = Inr seq'"
  shows "seq \<noteq> [] \<and> valid P seq \<and> length seq \<le> block_size \<and> seq' = seq @ [mn s (next_probs P seq)]"
  using assms(2) unfolding full_step_char[OF assms(1)] by (auto split: if_splits)

lemma generate_loop_next:
  assumes "constructed P" and "seq \<noteq> []" and "valid P (butlast seq)" and "length (butlast seq) \<le> block_size"
  shows "generate_loop P mn n s (state_of P seq) = map_sum id (state_of P) (generate_full_loop P mn n s seq)"
  using assms(2-4)
proof (induction n arbitrary: s seq)
  case 0
  show ?case by simp
next
  case (Suc n)
  note step = generate_step_next[OF assms(1) Suc.prems, of mn s]
  show ?case
  proof (cases "full_step P mn s seq")
    case (Inl e)
    then show ?thesis using step by simp
  next
    case (Inr seq')
    from full_step_Inr[OF assms(1) Inr]
    have "seq' \<noteq> []" "valid P (butlast seq')" "length (butlast seq') \<le> block_size" by simp_all
    from Suc.IH[OF this] show ?thesis using step Inr by simp
  qed
qed

lemma generate_eq_full:
  assumes "constructed P"
  shows "generate P mn idx N = generate_full P mn idx N"
proof (cases N)
  case 0
  then show ?thesis by (simp add: generate_def generate_full_def)
next
  case (Suc n)
  note step = generate_step_first[OF assms, of mn 0 idx]
  show ?thesis
  proof (cases "full_step P mn 0 idx")
    case (Inl e)
    then show ?thesis using step Suc by (simp add: generate_def generate_full_def)
  next
    case (Inr seq')
    from full_step_Inr[OF assms Inr]
    have "seq' \<noteq> []" "valid P (butlast seq')" "length (butlast seq') \<le> block_size" by simp_all
    from generate_loop_next[OF assms this, of mn n "Suc 0"] show ?thesis
      using step Inr Suc
      by (cases "generate_full_loop P mn n (Suc 0) seq'")
         (simp_all add: generate_def generate_full_def state_of_def)
  qed
qed

section \<open>Runs of the generation loop\<close>

lemma length_rollout: "length (rollout P mn idx k) = length idx + k"
  by (induction k) simp_all

lemma rollout_take: "j \<le> k \<Longrightarrow> take (length idx + j) (rollout P mn idx k) = rollout P mn idx j"
proof (induction k)
  case 0
  then show ?case by simp
next
  case (Suc k)
  show ?case
  proof (cases "j = Suc k")
    case True
    then show ?thesis using length_rollout[of P mn idx "Suc k"] by (simp del: rollout.simps)
  next
    case False
    with Suc.prems have "j \<le> k" by simp
    with Suc.IH show ?thesis by (simp add: length_rollout)
  qed
qed

lemma rollout_nth:
  assumes "j < k"
  shows "rollout P mn idx k ! (length idx + j) = mn j (next_probs P (rollout P mn idx j))"
proof -
  have "rollout P mn idx k ! (length idx + j) = take (length idx + Suc j) (rollout P mn idx k) ! (length idx + j)"
    by simp
  also have "\<dots> = rollout P mn idx (Suc j) ! (length idx + j)"
    using rollout_take[of "Suc j" k idx P mn] assms by simp
  also have "\<dots> = mn j (next_probs P (rollout P mn idx j))"
    by (simp add: nth_append length_rollout)
  finally show ?thesis .
qed

lemma length_next_probs:
  assumes "constructed P" and "seq \<noteq> []"
  shows "length (next_probs P seq) = length (token_embedding_table P)"
proof -
  have "lm_logits P (acts (blocks P) (emb P seq)) \<noteq> []"
    using assms(2) by (simp add: logits_empty)
  then have "acts (blocks P) (emb P seq) \<noteq> []" by (simp add: lm_logits_empty)
  then show ?thesis
    using assms(1)
    by (simp add: next_probs_def softmax_def lm_logits_def last_map linear_def vadd_def
          linear_nobias_def constructed_def)
qed

lemma valid_snoc: "valid P (seq @ [t]) \<longleftrightarrow> valid P seq \<and> t < length (token_embedding_table P)"
  by (simp add: valid_def)

lemma valid_nonempty: "valid P seq \<Longrightarrow> seq \<noteq> [] \<Longrightarrow> 0 < length (token_embedding_table P)"
  by (cases seq) (auto simp: valid_def)

lemma full_step_ok:
  assumes "constructed P" and "sampler_ok mn"
    and "seq \<noteq> []" and "valid P seq" and "length seq \<le> block_size"
  shows "full_step P mn s seq = Inr (seq @ [mn s (next_probs P seq)]) \<and>
         valid P (seq @ [mn s (next_probs P seq)])"
proof -
  have len: "length (next_probs P seq) = length (token_embedding_table P)"
    by (rule length_next_probs[OF assms(1,3)])
  with valid_nonempty[OF assms(4,3)] have ne: "next_probs P seq \<noteq> []" by auto
  from assms(2) ne have "mn s (next_probs P seq) < length (next_probs P seq)"
    unfolding sampler_ok_def by blast
  with len have "mn s (next_probs P seq) < length (token_embedding_table P)"
    by simp
  then show ?thesis
    using assms(3-5) ne by (simp add: full_step_char[OF assms(1)] valid_snoc)
qed

lemma full_loop_snoc:
  "generate_full_loop P mn (Suc n) s seq =
     (case generate_full_loop P mn n s seq of
        Inl e \<Rightarrow> Inl e
      | Inr seq' \<Rightarrow> full_step P mn (s + n) seq')"
proof (induction n arbitrary: s seq)
  case 0
  show ?case by (simp split: sum.splits)
next
  case (Suc n)
  show ?case
  proof (cases "full_step P mn s seq")
    case (Inl e)
    then show ?thesis by simp
  next
    case (Inr seq1)
    have a: "generate_full_loop P mn (Suc (Suc n)) s seq = generate_full_loop P mn (Suc n) (Suc s) seq1"
      using Inr by simp
    have b: "generate_full_loop P mn (Suc n) s seq = generate_full_loop P mn n (Suc s) seq1"
      using Inr by simp
    note a
    also have "generate_full_loop P mn (Suc n) (Suc s) seq1 =
        (case generate_full_loop P mn n (Suc s) seq1 of
           Inl e \<Rightarrow> Inl e | Inr seq' \<Rightarrow> full_step P mn (Suc s + n) seq')"
      by (rule Suc.IH)
    also have "\<dots> = (case generate_full_loop P mn (Suc n) s seq of
           Inl e \<Rightarrow> Inl e | Inr seq' \<Rightarrow> full_step P mn (s + Suc n) seq')"
      unfolding b by (simp split: sum.splits)
    finally show ?thesis .
  qed
qed

lemma full_loop_rollout:
  assumes "constructed P" and "sampler_ok mn"
    and "idx \<noteq> []" and "valid P idx" and "length idx + k \<le> Suc block_size"
  shows "generate_full_loop P mn k 0 idx = Inr (rollout P mn idx k) \<and> valid P (rollout P mn idx k)"
  using assms(5)
proof (induction k)
  case 0
  show ?case using assms(4) by simp
next
  case (Suc k)
  then have IH: "generate_full_loop P mn k 0 idx = Inr (rollout P mn idx k)" "valid P (rollout P mn idx k)"
    by simp_all
  have ne: "rollout P mn idx k \<noteq> []"
    using assms(3) length_rollout[of P mn idx k] by (metis add_is_0 length_0_conv)
  have le: "length (rollout P mn idx k) \<le> block_size"
    using Suc.prems by (simp add: length_rollout)
  from full_step_ok[OF assms(1,2) ne IH(2) le, where s = k]
  show ?case unfolding full_loop_snoc IH(1) by simp
qed

lemma full_loop_fail:
  assumes "constructed P" and "sampler_ok mn"
    and "seq \<noteq> []" and "valid P seq" and "0 < n" and "Suc block_size < length seq + n"
  shows "generate_full_loop P mn n s seq = Inl (IndexError Position_embedding)"
  using assms(3-6)
proof (induction n arbitrary: s seq)
  case 0
  then show ?case by simp
next
  case (Suc m)
  show ?case
  proof (cases "block_size < length seq")
    case True
    then show ?thesis using Suc.prems by (simp add: full_step_char[OF assms(1)])
  next
    case False
    then have le: "length seq \<le> block_size" by simp
    from full_step_ok[OF assms(1,2) Suc.prems(1,2) le, where s = s]
    have st: "full_step P mn s seq = Inr (seq @ [mn s (next_probs P seq)])"
      and v: "valid P (seq @ [mn s (next_probs P seq)])" by simp_all
    have "0 < m" using le Suc.prems(4) by simp
    moreover have "Suc block_size < length (seq @ [mn s (next_probs P seq)]) + m"
      using Suc.prems(4) by simp
    ultimately have "generate_full_loop P mn m (Suc s) (seq @ [mn s (next_probs P seq)]) =
                     Inl (IndexError Position_embedding)"
      using Suc.IH[OF _ v] by simp
    then show ?thesis using st by simp
  qed
qed

lemma generate_loop_eq_full:
  assumes "constructed P"
  shows "generate_loop P mn (Suc n) 0 (idx, replicate n_layer None, idx) =
         map_sum id (state_of P) (generate_full_loop P mn (Suc n) 0 idx)"
proof (cases "full_step P mn 0 idx")
  case (Inl e)
  then show ?thesis using generate_step_first[OF assms, of mn 0 idx] by simp
next
  case (Inr seq')
  from full_step_Inr[OF assms Inr]
  have "seq' \<noteq> []" "valid P (butlast seq')" "length (butlast seq') \<le> block_size" by simp_all
  from generate_loop_next[OF assms this, of mn n "Suc 0"] show ?thesis
    using generate_step_first[OF assms, of mn 0 idx] Inr by simp
qed

section \<open>The language model: default arguments and causality\<close>

lemma constructed_example: "constructed example_model"
  by (simp add: constructed_def example_model_def)

lemma sampler_ok_first: "sampler_ok first_token"
  by (simp add: sampler_ok_def first_token_def)

lemma history_length_None: "history_length None = 0"
  by (simp add: history_length_def)

text \<open>
  Claim C1 says that \<^verbatim>\<open>forward\<close>, called with targets and the default arguments (no
  cache), returns the logits and the cross-entropy loss. The code does not: with
  \<^verbatim>\<open>blocks_kvcache = None\<close> every call raises, whatever the input, the targets and
  \<^verbatim>\<open>use_cache\<close> are. When the embeddings can be looked up, the exception is the
  \<^verbatim>\<open>TypeError\<close> of \<^verbatim>\<open>zip(self.blocks, None)\<close> in line 232, before any block has run.
  The instance below is the call \<^verbatim>\<open>forward(idx=[[0]], targets=[[1]])\<close>.
\<close>

theorem forward_default_raises:
  "forward P idx targets use_cache None =
     Inl (if \<not> valid P idx then IndexError Token_embedding
          else if idx \<noteq> [] \<and> length (position_embedding_table P) < length idx
               then IndexError Position_embedding
          else TypeError Zip_blocks)"
  by (simp add: forward_def history_length_None embed_char)

theorem forward_default_raises_example:
  "forward example_model [0] (Some [1]) False None = Inl (TypeError Zip_blocks)"
  using forward_default_raises[of example_model "[0]" "Some [1]" False]
  by (simp add: valid_def example_model_def block_size_def)

lemma mha_cache_length:
  assumes "prev_k \<noteq> []"
  shows "time_len (fst (mha_kv p x True (Some (prev_k, prev_v)))) =
         min (block_size + 1) (time_len prev_k) + length x"
proof -
  obtain h hs where pk: "prev_k = h # hs" using assms by (cases prev_k) auto
  obtain m where n: "n_head = Suc m" using n_head_pos by (cases n_head) auto
  have "split_heads (map (linear_nobias (w_key p)) x) =
        map (hrow (w_key p) 0) x # map (\<lambda>n. map (hrow (w_key p) n) x) [Suc 0..<Suc m]"
    unfolding split_heads_linear heads_of_def n by (simp add: upt_conv_Cons del: upt_Suc)
  then show ?thesis
    by (simp add: mha_kv_def Let_def cat_time_def pk time_len_def length_last_n)
qed

lemma caches_of_time_len: "c \<in> set (caches_of bs xs) \<Longrightarrow> time_len (fst c) = length xs"
  by (induction bs arbitrary: xs)
     (auto simp: kv_in_def kv_of_def time_len_heads_of length_layer)

lemma generate_cache_length:
  assumes "constructed P" and "sampler_ok mn" and "idx \<noteq> []" and "valid P idx"
    and "generate_loop P mn (Suc k) 0 (idx, replicate n_layer None, idx) = Inr (cidx, caches, out)"
    and "c \<in> set caches"
  shows "\<exists>kv. c = Some kv \<and> time_len (fst kv) = length idx + k \<and> length idx + k \<le> block_size"
proof -
  from assms(5) have m: "map_sum id (state_of P) (generate_full_loop P mn (Suc k) 0 idx) = Inr (cidx, caches, out)"
    unfolding generate_loop_eq_full[OF assms(1)] .
  then obtain seq where F: "generate_full_loop P mn (Suc k) 0 idx = Inr seq"
    and st: "state_of P seq = (cidx, caches, out)"
    by (cases "generate_full_loop P mn (Suc k) 0 idx") auto
  have le: "length idx + Suc k \<le> Suc block_size"
  proof (rule ccontr)
    assume "\<not> length idx + Suc k \<le> Suc block_size"
    then have "Suc block_size < length idx + Suc k" by simp
    from full_loop_fail[OF assms(1-4) _ this, of 0] F show False by simp
  qed
  from full_loop_rollout[OF assms(1-4) le] F have seq: "seq = rollout P mn idx (Suc k)" by simp
  have bl: "butlast seq = rollout P mn idx k" by (simp add: seq)
  from st have "caches = map Some (caches_of (blocks P) (emb P (rollout P mn idx k)))"
    by (simp add: state_of_def bl)
  with assms(6) obtain kv where "c = Some kv" "kv \<in> set (caches_of (blocks P) (emb P (rollout P mn idx k)))"
    by auto
  with caches_of_time_len[of kv "blocks P" "emb P (rollout P mn idx k)"] le
  show ?thesis by (simp add: length_emb length_rollout)
qed

lemma emb_take: "take m (emb P idx) = emb P (take m idx)"
  by (rule nth_equalityI) (simp_all add: emb_def)

lemma nth_via_take: "t < length xs \<Longrightarrow> xs ! t = take (Suc t) xs ! t"
  by simp

text \<open>
  Claim C3. Two inputs of the same length that agree at the positions \<open>0, \<dots>, t\<close> give
  the same attention output at position \<open>t\<close> (or the same exception), whatever they hold
  at later positions; and two prompts of in-vocabulary tokens that agree at the positions
  \<open>0, \<dots>, t\<close> give the same logits at position \<open>t\<close>.
\<close>

theorem no_future_leakage:
  assumes "length x' = length x" and "take (Suc t) x' = take (Suc t) x" and "t < length x"
    and "constructed P" and "valid P idx" and "valid P idx'"
    and "length idx' = length idx" and "take (Suc t) idx' = take (Suc t) idx" and "t < length idx"
  shows "map_sum id (\<lambda>r. fst r ! t) (mha_forward p x' use_cache None) =
         map_sum id (\<lambda>r. fst r ! t) (mha_forward p x use_cache None) \<and>
         map_sum id (\<lambda>r. fst r ! t) (forward P idx' None True (Some (replicate n_layer None))) =
         map_sum id (\<lambda>r. fst r ! t) (forward P idx None True (Some (replicate n_layer None)))"
proof
  show "map_sum id (\<lambda>r. fst r ! t) (mha_forward p x' use_cache None) =
        map_sum id (\<lambda>r. fst r ! t) (mha_forward p x use_cache None)"
  proof (cases "length x \<le> block_size")
    case True
    have "x' ! t = x ! t"
      using nth_via_take[of t x] nth_via_take[of t x'] assms(1-3) by simp
    then show ?thesis
      using True assms(1-3) by (simp add: mha_forward_fresh)
  next
    case False
    then show ?thesis using assms(1) by (simp add: mha_forward_too_long)
  qed
next
  show "map_sum id (\<lambda>r. fst r ! t) (forward P idx' None True (Some (replicate n_layer None))) =
        map_sum id (\<lambda>r. fst r ! t) (forward P idx None True (Some (replicate n_layer None)))"
  proof (cases "length idx \<le> block_size")
    case True
    have row: "\<And>seq. t < length seq \<Longrightarrow>
        lm_logits P (acts (blocks P) (emb P seq)) ! t =
        lm_logits P (acts (blocks P) (emb P (take (Suc t) seq))) ! t"
    proof -
      fix seq :: "nat list" assume t: "t < length seq"
      have "lm_logits P (acts (blocks P) (emb P seq)) ! t =
            linear (lm_head_w P) (lm_head_b P) (layer_norm (ln_f P) (acts (blocks P) (emb P seq) ! t))"
        using t by (simp add: lm_logits_def length_acts length_emb)
      also have "acts (blocks P) (emb P seq) ! t = take (Suc t) (acts (blocks P) (emb P seq)) ! t"
        by simp
      also have "take (Suc t) (acts (blocks P) (emb P seq)) = acts (blocks P) (emb P (take (Suc t) seq))"
        by (simp add: acts_take emb_take)
      finally show "lm_logits P (acts (blocks P) (emb P seq)) ! t =
            lm_logits P (acts (blocks P) (emb P (take (Suc t) seq))) ! t"
        using t by (simp add: lm_logits_def length_acts length_emb)
    qed
    show ?thesis
      using True assms(5-9) row[of idx] row[of idx']
      by (simp add: forward_fresh[OF assms(4)])
  next
    case False
    then show ?thesis using assms(5-7) by (simp add: forward_fresh[OF assms(4)])
  qed
qed

theorem no_future_leakage_witness:
  "map_sum id (\<lambda>r. fst r ! 0) (mha_forward example_mha [replicate n_embd 0, replicate n_embd 2] False None) =
   map_sum id (\<lambda>r. fst r ! 0) (mha_forward example_mha [replicate n_embd 0, replicate n_embd 1] False None) \<and>
   map_sum id (\<lambda>r. fst r ! 0) (forward example_model [0, 2] None True (Some (replicate n_layer None))) =
   map_sum id (\<lambda>r. fst r ! 0) (forward example_model [0, 1] None True (Some (replicate n_layer None)))"
proof -
  have v: "valid example_model [0, 1]" "valid example_model [0, 2]"
    by (simp_all add: valid_def example_model_def)
  show ?thesis
    using no_future_leakage[where x' = "[replicate n_embd 0, replicate n_embd 2]"
      and x = "[replicate n_embd 0, replicate n_embd 1]" and t = 0 and P = example_model
      and idx' = "[0, 2]" and idx = "[0, 1]" and p = example_mha and use_cache = False,
      OF _ _ _ constructed_example v]
    by simp
qed

section \<open>Attention scale and block structure\<close>

lemma dot_replicate: "dot (replicate n a) (replicate n b) = real n * a * b"
proof -
  have "zip (replicate n a) (replicate n b) = replicate n (a, b)"
    by (induction n) simp_all
  then show ?thesis by (simp add: dot_def sum_list_replicate)
qed

lemma head_wei_char:
  "head_wei p x =
     map (\<lambda>r. map (\<lambda>c. dot (linear_nobias (h_query p) r) (linear_nobias (h_key p) c)
                          * (1 / sqrt (real n_embd))) x) x"
  by (simp add: head_wei_def Let_def smul_def matmul_nt_def comp_def)

text \<open>
  Claim C7 says that every attention module scales the dot products of queries and keys
  by \<open>1 / sqrt head_dim\<close>, the dimension of one head. \<^verbatim>\<open>MultiHeadAttention.forward\<close> does
  (lemma \<open>mha_att_wei_char\<close>); \<^verbatim>\<open>Head.forward\<close> scales by \<open>C ** -0.5\<close> with \<open>C\<close> the
  width of its input, \<^verbatim>\<open>n_embd = 384\<close> (lemma \<open>head_wei_char\<close>). For a head of size 64
  with all weights one and an input row of ones, the dot product of query and key is
  9437184, and the score is 9437184 / sqrt 384 and not 9437184 / sqrt 64.
\<close>

theorem head_scale_uses_n_embd:
  "head_wei example_head [replicate n_embd 1] = [[9437184 * (1 / sqrt 384)]] \<and>
   dot (linear_nobias (h_query example_head) (replicate n_embd 1))
       (linear_nobias (h_key example_head) (replicate n_embd 1)) = 9437184 \<and>
   9437184 * (1 / sqrt 384) \<noteq> 9437184 * (1 / sqrt (real (head_dim example_head)))"
proof -
  have q: "linear_nobias (replicate 64 (replicate 384 1)) (replicate 384 1) = replicate 64 384"
    by (simp add: linear_nobias_def dot_replicate)
  have d: "dot (replicate 64 384) (replicate 64 384) = 9437184"
    by (simp add: dot_replicate)
  have "sqrt 384 \<noteq> 8"
  proof
    assume "sqrt 384 = 8"
    then have "(sqrt 384)\<^sup>2 = 8\<^sup>2" by simp
    then show False by simp
  qed
  then have ne: "9437184 * (1 / sqrt 384) \<noteq> 9437184 * (1 / sqrt (real 64))"
    by (simp add: field_simps)
  show ?thesis
    using ne by (simp add: head_wei_char example_head_def head_dim_def q d n_embd_def)
qed

lemma mha_forward_length:
  assumes "mha_forward p x uc c = Inr (out, c')"
  shows "length out = length x"
  using assms
  by (auto simp: mha_forward_def Let_def merge_heads_def dropout_def split: prod.splits sum.splits)

text \<open>
  Claim C8. The block computes \<open>x' = x + Attention (Normalize x)\<close> and then
  \<open>x'' = x' + FeedForward (Normalize x')\<close>, position by position: the first normalisation
  is applied to the input of the attention layer, the second to the input of the
  feed-forward module, and neither to a residual sum. An exception of the attention layer
  is passed on, and its cache is returned as it is.
\<close>

theorem block_forward_prenorm:
  "block_forward p x use_cache kvcache =
     (case mha_forward (sa_heads p) (map (layer_norm (ln1 p)) x) use_cache kvcache of
        Inl e \<Rightarrow> Inl e
      | Inr (att, new_kvcache) \<Rightarrow>
          Inr (map (\<lambda>t. let x' = vadd (x ! t) (att ! t)
                         in vadd x' (ffwd_row (ffwd p) (layer_norm (ln2 p) x'))) [0..<length x],
               new_kvcache))"
proof (cases "mha_forward (sa_heads p) (map (layer_norm (ln1 p)) x) use_cache kvcache")
  case (Inl e)
  then show ?thesis by (simp add: block_forward_def)
next
  case (Inr r)
  obtain att c where r: "r = (att, c)" by (cases r)
  have len: "length att = length x"
    using mha_forward_length[OF Inr[unfolded r]] by simp
  have "tadd x att = map (\<lambda>t. vadd (x ! t) (att ! t)) [0..<length x]"
    using len by (intro nth_equalityI) (simp_all add: tadd_def)
  then show ?thesis
    by (simp add: block_forward_def Inr r Let_def ffwd_forward_def tadd_map_same)
qed

section \<open>Generation within and past the context length\<close>

lemma generate_fails:
  assumes "constructed P" and "sampler_ok mn" and "idx \<noteq> []" and "valid P idx"
    and "0 < N" and "Suc block_size < length idx + N"
  shows "generate P mn idx N = Inl (IndexError Position_embedding)"
  unfolding generate_eq_full[OF assms(1)] generate_full_def
  by (rule full_loop_fail[OF assms])

lemma generate_trace:
  assumes "constructed P" and "sampler_ok mn" and "idx \<noteq> []" and "valid P idx"
    and "length idx + N \<le> Suc block_size"
  defines "out \<equiv> rollout P mn idx N"
  shows "generate P mn idx N = Inr out"
    and "length out = length idx + N"
    and "take (length idx) out = idx"
    and "k < N \<Longrightarrow> \<exists>caches logits loss new_caches.
          generate_loop P mn k 0 (idx, replicate n_layer None, idx) =
             Inr (if k = 0 then idx else [out ! (length idx + k - 1)], caches, take (length idx + k) out) \<and>
          forward P (if k = 0 then idx else [out ! (length idx + k - 1)]) None True (Some caches) =
             Inr (logits, loss, Some new_caches) \<and>
          logits \<noteq> [] \<and>
          out ! (length idx + k) = mn k (softmax (map Finite (last logits)))"
proof -
  show "generate P mn idx N = Inr out"
    unfolding generate_eq_full[OF assms(1)] generate_full_def out_def
    using full_loop_rollout[OF assms(1-5)] by simp
  show "length out = length idx + N" by (simp add: out_def length_rollout)
  show "take (length idx) out = idx"
    using rollout_take[of 0 N idx P mn] by (simp add: out_def)
next
  assume k: "k < N"
  show "\<exists>caches logits loss new_caches.
          generate_loop P mn k 0 (idx, replicate n_layer None, idx) =
             Inr (if k = 0 then idx else [out ! (length idx + k - 1)], caches, take (length idx + k) out) \<and>
          forward P (if k = 0 then idx else [out ! (length idx + k - 1)]) None True (Some caches) =
             Inr (logits, loss, Some new_caches) \<and>
          logits \<noteq> [] \<and>
          out ! (length idx + k) = mn k (softmax (map Finite (last logits)))"
  proof (cases k)
    case 0
    have le: "length idx \<le> block_size" using k assms(5) by simp
    have t: "take (length idx + 0) out = idx"
      using rollout_take[of 0 N idx P mn] by (simp add: out_def)
    have n: "out ! (length idx + 0) = mn 0 (next_probs P idx)"
      using rollout_nth[of 0 N P mn idx] k by (simp add: out_def)
    have f: "forward P idx None True (Some (replicate n_layer None)) =
             Inr (lm_logits P (acts (blocks P) (emb P idx)), None,
                  Some (map Some (caches_of (blocks P) (emb P idx))))"
      using le assms(4) by (simp add: forward_fresh[OF assms(1)])
    have ne: "lm_logits P (acts (blocks P) (emb P idx)) \<noteq> []"
      using assms(3) by (simp add: logits_empty)
    show ?thesis
      unfolding 0 using t n f ne by (simp add: next_probs_def)
  next
    case (Suc j)
    let ?pre = "rollout P mn idx j" and ?seq = "rollout P mn idx (Suc j)"
    let ?tok = "mn j (next_probs P ?pre)"
    have b: "length idx + Suc j \<le> Suc block_size" using k Suc assms(5) by simp
    have F: "generate_full_loop P mn (Suc j) 0 idx = Inr ?seq" and v: "valid P ?seq"
      using full_loop_rollout[OF assms(1-4) b] by simp_all
    have G: "generate_loop P mn (Suc j) 0 (idx, replicate n_layer None, idx) = Inr (state_of P ?seq)"
      unfolding generate_loop_eq_full[OF assms(1)] F by simp
    have st: "state_of P ?seq = ([?tok], map Some (caches_of (blocks P) (emb P ?pre)), ?seq)"
      by (simp add: state_of_def)
    have tok: "out ! (length idx + Suc j - 1) = ?tok"
      using rollout_nth[of j N P mn idx] k Suc by (simp add: out_def)
    have tk: "take (length idx + Suc j) out = ?seq"
      using rollout_take[of "Suc j" N idx P mn] k Suc by (simp add: out_def del: rollout.simps)
    have n: "out ! (length idx + Suc j) = mn (Suc j) (next_probs P ?seq)"
      using rollout_nth[of "Suc j" N P mn idx] k Suc by (simp add: out_def del: rollout.simps)
    have lp: "length ?pre \<le> block_size" "\<not> block_size \<le> length ?pre"
      using k Suc assms(5) by (simp_all add: length_rollout)
    have vt: "valid P [?tok]" using v by (simp add: valid_def)
    have f: "forward P [?tok] None True (Some (map Some (caches_of (blocks P) (emb P ?pre)))) =
             Inr ([last (lm_logits P (acts (blocks P) (emb P ?seq)))], None,
                  Some (map Some (caches_of (blocks P) (emb P ?seq))))"
      using forward_step[OF assms(1) lp(1), of ?tok] vt lp(2) by simp
    show ?thesis
      unfolding Suc G st tok tk n using f by (simp add: next_probs_def del: rollout.simps)
  qed
qed

text \<open>
  Claim C9, amended. For every non-empty prompt of in-vocabulary tokens of length \<open>T\<close> and
  every \<open>N\<close> with \<open>T + N \<le> block_size + 1\<close>, \<^verbatim>\<open>generate\<close> returns a sequence of length
  \<open>T + N\<close> that starts with the prompt. After \<open>k < N\<close> iterations the loop holds the first
  \<open>T + k\<close> tokens of the result, and the input of its next call of \<^verbatim>\<open>forward\<close> is the
  prompt for \<open>k = 0\<close> and the single newest token for \<open>k > 0\<close>; that call succeeds, and
  the next token is the multinomial draw of step \<open>k\<close> from the softmax of its logits at
  the last position.
\<close>

theorem generate_within_context:
  assumes "constructed P" and "sampler_ok multinomial" and "idx \<noteq> []" and "valid P idx"
    and "length idx + N \<le> block_size + 1"
  shows "\<exists>out. generate P multinomial idx N = Inr out \<and>
           length out = length idx + N \<and>
           take (length idx) out = idx \<and>
           (\<forall>k<N. \<exists>caches logits loss new_caches.
              generate_loop P multinomial k 0 (idx, replicate n_layer None, idx) =
                Inr (if k = 0 then idx else [out ! (length idx + k - 1)], caches,
                     take (length idx + k) out) \<and>
              forward P (if k = 0 then idx else [out ! (length idx + k - 1)]) None True (Some caches) =
                Inr (logits, loss, Some new_caches) \<and>
              logits \<noteq> [] \<and>
              out ! (length idx + k) = multinomial k (softmax (map Finite (last logits))))"
proof -
  have b: "length idx + N \<le> Suc block_size" using assms(5) by simp
  note t = generate_trace[OF assms(1-4) b]
  show ?thesis
    by (intro exI[of _ "rollout P multinomial idx N"] conjI allI impI t)
qed

theorem generate_within_context_witness:
  "\<exists>out. generate example_model first_token [0, 1, 2] 1 = Inr out \<and> length out = 4 \<and>
         take 3 out = [0, 1, 2]"
proof -
  have v: "valid example_model [0, 1, 2]"
    by (simp add: valid_def example_model_def)
  have b: "length [0::nat, 1, 2] + 1 \<le> block_size + 1"
    by (simp add: block_size_def)
  have ne: "[0::nat, 1, 2] \<noteq> []" by simp
  from generate_within_context[OF constructed_example sampler_ok_first ne v b]
  obtain out where o: "generate example_model first_token [0, 1, 2] 1 = Inr out \<and>
      length out = length [0::nat, 1, 2] + 1 \<and> take (length [0::nat, 1, 2]) out = [0, 1, 2] \<and>
      (\<forall>k<1. \<exists>caches logits loss new_caches.
          generate_loop example_model first_token k 0 ([0, 1, 2], replicate n_layer None, [0, 1, 2]) =
            Inr (if k = 0 then [0, 1, 2] else [out ! (length [0::nat, 1, 2] + k - 1)], caches,
                 take (length [0::nat, 1, 2] + k) out) \<and>
          forward example_model (if k = 0 then [0, 1, 2] else [out ! (length [0::nat, 1, 2] + k - 1)])
            None True (Some caches) = Inr (logits, loss, Some new_caches) \<and>
          logits \<noteq> [] \<and>
          out ! (length [0::nat, 1, 2] + k) = first_token k (softmax (map Finite (last logits))))"
    by (elim exE)
  have "generate example_model first_token [0, 1, 2] 1 = Inr out" using o by (rule conjunct1)
  moreover have "length out = 4" using o by simp
  moreover have "take 3 out = [0, 1, 2]" using conjunct1[OF conjunct2[OF conjunct2[OF o]]] by (simp add: numeral_3_eq_3)
  ultimately show ?thesis by blast
qed

text \<open>
  Claim C9 as stated, for every prompt and every number of new tokens, fails: for a
  prompt of \<^verbatim>\<open>block_size\<close> tokens and two new tokens \<^verbatim>\<open>generate\<close> raises.
\<close>

theorem generate_long_prompt_raises:
  "generate example_model first_token (replicate block_size 0) 2 = Inl (IndexError Position_embedding)"
proof -
  have v: "valid example_model (replicate block_size 0)"
    by (simp add: valid_def example_model_def list_all_iff)
  have ne: "replicate block_size (0::nat) \<noteq> []"
    by (simp add: block_size_def)
  show ?thesis
    by (rule generate_fails[OF constructed_example sampler_ok_first ne v]) simp_all
qed

text \<open>
  Claim C10. Generation of \<open>N > 0\<close> tokens from a non-empty prompt of in-vocabulary
  tokens of length \<open>T\<close> raises the \<^verbatim>\<open>IndexError\<close> of the position-embedding lookup exactly
  when \<open>T + N > block_size + 1\<close>: the position table has \<^verbatim>\<open>block_size\<close> rows, and the call
  of \<^verbatim>\<open>forward\<close> that follows the one whose positions reach \<^verbatim>\<open>block_size\<close> in total
  looks up the position \<^verbatim>\<open>block_size\<close>.
\<close>

theorem generate_past_context_fails:
  assumes "constructed P" and "sampler_ok multinomial" and "idx \<noteq> []" and "valid P idx"
    and "0 < N"
  shows "generate P multinomial idx N = Inl (IndexError Position_embedding) \<longleftrightarrow>
         block_size + 1 < length idx + N"
proof (cases "block_size + 1 < length idx + N")
  case True
  then show ?thesis
    using generate_fails[OF assms(1-5)] by simp
next
  case False
  then have "length idx + N \<le> Suc block_size" by simp
  from generate_trace(1)[OF assms(1-4) this] False show ?thesis by simp
qed

theorem generate_past_context_fails_witness:
  "generate example_model first_token [0] (block_size + 1) = Inl (IndexError Position_embedding)"
proof -
  have v: "valid example_model [0]"
    by (simp add: valid_def example_model_def)
  from generate_past_context_fails[OF constructed_example sampler_ok_first _ v, of "block_size + 1"]
  show ?thesis by simp
qed






section \<open>Generation in evaluation mode and in training mode\<close>

subsection \<open>The modules in evaluation mode\<close>

text \<open>
  For \<open>training = False\<close> the definitions with the suffix \<open>_mode\<close> take no draw and
  return what the definitions of the modules in evaluation mode return.
\<close>

lemma map_accum_eval: "map_accum (\<lambda>pos x. (x, pos)) pos xs = (xs, pos)"
  by (induction xs) simp_all

lemma dropout_row_eval: "dropout_row False draws = (\<lambda>pos v. (v, pos))"
  by (simp add: dropout_row_def fun_eq_iff)

lemma dropout_mat_eval: "dropout_mat False draws = (\<lambda>pos m. (m, pos))"
  by (simp add: dropout_mat_def dropout_row_eval map_accum_eval fun_eq_iff)

lemma dropout_heads_eval: "dropout_heads False draws pos t = (t, pos)"
  by (simp add: dropout_heads_def dropout_mat_eval map_accum_eval)

lemma head_forward_eval:
  "head_forward_mode False draws pos p x = map_sum id (\<lambda>r. (r, pos)) (head_forward p x)"
  by (simp add: head_forward_mode_def head_forward_def dropout_mat_eval dropout_def Let_def)

lemma mha_forward_eval:
  "mha_forward_mode False draws pos p x use_cache kvcache =
   map_sum id (\<lambda>r. (r, pos)) (mha_forward p x use_cache kvcache)"
  by (simp add: mha_forward_mode_def mha_forward_def dropout_mat_eval dropout_heads_eval
        dropout_def Let_def split: prod.splits sum.splits)

lemma ffwd_forward_eval:
  "ffwd_forward_mode False draws pos p x = (ffwd_forward p x, pos)"
  by (simp add: ffwd_forward_mode_def ffwd_forward_def ffwd_row_def dropout_mat_eval dropout_def)

lemma block_forward_eval:
  "block_forward_mode False draws pos p x use_cache kvcache =
   map_sum id (\<lambda>r. (r, pos)) (block_forward p x use_cache kvcache)"
  by (simp add: block_forward_mode_def block_forward_def mha_forward_eval ffwd_forward_eval Let_def
        split: prod.splits sum.splits)

lemma run_blocks_eval:
  "run_blocks_mode False draws pos bs x use_cache =
   map_sum id (\<lambda>r. (r, pos)) (run_blocks bs x use_cache)"
  by (induction bs x use_cache rule: run_blocks.induct)
     (simp_all add: block_forward_eval split: prod.splits sum.splits)

lemma forward_eval:
  "forward_mode False draws pos P idx targets use_cache blocks_kvcache =
   map_sum id (\<lambda>r. (r, pos)) (forward P idx targets use_cache blocks_kvcache)"
  by (simp add: forward_mode_def forward_def run_blocks_eval Let_def
        split: prod.splits sum.splits option.splits)

lemma generate_step_eval:
  "generate_step_mode False draws P mn step (st, pos) =
   map_sum id (\<lambda>r. (r, pos)) (generate_step P mn step st)"
  by (simp add: generate_step_mode_def generate_step_def forward_eval Let_def
        split: prod.splits sum.splits option.splits)

lemma generate_loop_eval:
  "generate_loop_mode False draws P mn n step (st, pos) =
   map_sum id (\<lambda>r. (r, pos)) (generate_loop P mn n step st)"
  by (induction n arbitrary: step st)
     (simp_all add: generate_step_eval split: sum.splits)

lemma generate_eval:
  "generate_mode False draws pos P mn idx N = generate P mn idx N"
  by (simp add: generate_mode_def generate_def generate_loop_eval split: prod.splits sum.splits)

lemma forward_full_eval:
  "forward_full_mode False draws pos P idx = map_sum id (\<lambda>r. (r, pos)) (forward_full P idx)"
  by (simp add: forward_full_mode_def forward_full_def run_blocks_eval
        split: prod.splits sum.splits)

lemma full_step_eval:
  "full_step_mode False draws P mn step (idx, pos) =
   map_sum id (\<lambda>r. (r, pos)) (full_step P mn step idx)"
  by (simp add: full_step_mode_def full_step_def forward_full_eval Let_def
        split: prod.splits sum.splits)

lemma generate_full_loop_eval:
  "generate_full_loop_mode False draws P mn n step (idx, pos) =
   map_sum id (\<lambda>r. (r, pos)) (generate_full_loop P mn n step idx)"
  by (induction n arbitrary: step idx)
     (simp_all add: full_step_eval split: sum.splits)

lemma generate_full_eval:
  "generate_full_mode False draws pos P mn idx N = generate_full P mn idx N"
  by (cases "generate_full_loop P mn N 0 idx")
     (simp_all add: generate_full_mode_def generate_full_def generate_full_loop_eval)

lemma generate_mode_eq_full:
  assumes "constructed P"
  shows "generate_mode False draws pos P mn idx N = generate_full_mode False draws pos' P mn idx N"
  by (simp add: generate_eval generate_full_eval generate_eq_full[OF assms])

subsection \<open>The draws of a dropout layer\<close>

lemma map_accum_shape:
  assumes "\<And>pos x. sh (fst (f pos x)) = sh' x"
  shows "map sh (fst (map_accum f pos xs)) = map sh' xs"
proof (induction xs arbitrary: pos)
  case Nil
  show ?case by simp
next
  case (Cons x xs)
  obtain y p1 where f: "f pos x = (y, p1)" by (cases "f pos x")
  obtain ys p2 where m: "map_accum f p1 xs = (ys, p2)" by (cases "map_accum f p1 xs")
  have "sh y = sh' x" using assms[of pos x] f by simp
  moreover have "map sh ys = map sh' xs" using Cons.IH[of p1] m by simp
  moreover have "map_accum f pos (x # xs) = (y # ys, p2)" by (simp add: f m)
  ultimately show ?case by simp
qed

lemma map_accum_count:
  assumes "\<And>pos x. snd (f pos x) = pos + sz x"
  shows "snd (map_accum f pos xs) = pos + sum_list (map sz xs)"
proof (induction xs arbitrary: pos)
  case Nil
  show ?case by simp
next
  case (Cons x xs)
  obtain y p1 where f: "f pos x = (y, p1)" by (cases "f pos x")
  obtain ys p2 where m: "map_accum f p1 xs = (ys, p2)" by (cases "map_accum f p1 xs")
  have "p1 = pos + sz x" using assms[of pos x] f by simp
  moreover have "p2 = p1 + sum_list (map sz xs)" using Cons.IH[of p1] m by simp
  moreover have "map_accum f pos (x # xs) = (y # ys, p2)" by (simp add: f m)
  ultimately show ?case by simp
qed

lemma dropout_row_length: "length (fst (dropout_row tr d pos v)) = length v"
  by (simp add: dropout_row_def)

lemma dropout_row_count: "snd (dropout_row True d pos v) = pos + length v"
  by (simp add: dropout_row_def)

lemma dropout_mat_shape: "map length (fst (dropout_mat tr d pos m)) = map length m"
  unfolding dropout_mat_def by (rule map_accum_shape) (rule dropout_row_length)

lemma dropout_mat_count: "snd (dropout_mat True d pos m) = pos + sum_list (map length m)"
  unfolding dropout_mat_def by (rule map_accum_count) (rule dropout_row_count)

lemma dropout_heads_shape: "map (map length) (fst (dropout_heads tr d pos t)) = map (map length) t"
  unfolding dropout_heads_def by (rule map_accum_shape) (rule dropout_mat_shape)

lemma dropout_heads_count:
  "snd (dropout_heads True d pos t) = pos + sum_list (map (\<lambda>m. sum_list (map length m)) t)"
  unfolding dropout_heads_def by (rule map_accum_count) (rule dropout_mat_count)

lemma dropout_zero_elems:
  "map (\<lambda>(i, a). if d i then a / c else 0) (enumerate p (replicate n (0::real))) = replicate n 0"
  by (induction n arbitrary: p) simp_all

lemma dropout_row_zero: "dropout_row True d pos (replicate n 0) = (replicate n 0, pos + n)"
  by (simp add: dropout_row_def dropout_zero_elems)

lemma dropout_row_unit:
  "dropout_row True d pos (unit_row s) =
     (unit_row (if d pos then s / (1 - dropout_rate) else 0), pos + n_embd)"
  by (simp add: dropout_row_def unit_row_def dropout_zero_elems n_embd_def)

lemma map_accum_replicate:
  assumes "\<And>pos. f pos x = (y, pos + n)"
  shows "map_accum f pos (replicate T x) = (replicate T y, pos + T * n)"
  by (induction T arbitrary: pos) (simp_all add: assms)

lemma dropout_mat_zero:
  "dropout_mat True d pos (replicate T (replicate n 0)) = (replicate T (replicate n 0), pos + T * n)"
  unfolding dropout_mat_def by (rule map_accum_replicate) (rule dropout_row_zero)

subsection \<open>Attention with the weights zero, in training mode\<close>

text \<open>
  With the weights zero the attention layer returns rows of zeros whatever its dropout
  layers draw, and it takes one draw per attention weight and one per element of its
  output.
\<close>

lemma dot_zero_right: "dot r (replicate n 0) = 0"
proof (induction r arbitrary: n)
  case Nil
  show ?case by (simp add: dot_def)
next
  case (Cons a r)
  show ?case
  proof (cases n)
    case 0
    then show ?thesis by (simp add: dot_def)
  next
    case (Suc m)
    with Cons.IH[of m] show ?thesis by (simp add: dot_def)
  qed
qed

lemma linear_nobias_zero: "linear_nobias (replicate m (replicate n 0)) r = replicate m 0"
  by (simp add: linear_nobias_def dot_zero_right)

lemma hrow_zero:
  "n < n_head \<Longrightarrow> hrow (replicate n_embd (replicate n_embd 0)) n r = replicate head_size 0"
  by (simp add: hrow_def linear_nobias_zero n_embd_def n_head_def head_size_def min_def)

lemma heads_of_zero:
  "heads_of (replicate n_embd (replicate n_embd 0)) ctx =
   replicate n_head (replicate (length ctx) (replicate head_size 0))"
proof -
  have "map (\<lambda>n. map (hrow (replicate n_embd (replicate n_embd 0)) n) ctx) [0..<n_head] =
        map (\<lambda>n. replicate (length ctx) (replicate head_size 0)) [0..<n_head]"
  proof (intro map_cong refl)
    fix n assume "n \<in> set [0..<n_head]"
    then have "n < n_head" by simp
    then show "map (hrow (replicate n_embd (replicate n_embd 0)) n) ctx =
               replicate (length ctx) (replicate head_size 0)"
      by (intro nth_equalityI) (simp_all add: hrow_zero)
  qed
  then show ?thesis by (simp add: heads_of_def map_replicate_const)
qed

lemma kv_of_example: "kv_of example_mha ctx = zero_kv (length ctx)"
  by (simp add: kv_of_def example_mha_def zero_kv_def heads_of_zero)

lemma time_len_replicate: "time_len (replicate n_head m) = length m"
proof -
  obtain k where k: "n_head = Suc k" using n_head_pos by (cases n_head) auto
  show ?thesis unfolding k by (simp add: time_len_def)
qed

lemma weighted_sum_zero:
  "weighted_sum h w (replicate K (replicate h 0)) = replicate h 0"
proof -
  have z: "\<And>c. c < h \<Longrightarrow> sum_list (map2 (\<lambda>wk vk. wk * vk ! c) w (replicate K (replicate h 0))) = (0::real)"
  proof -
    fix c assume c: "c < h"
    show "sum_list (map2 (\<lambda>wk vk. wk * vk ! c) w (replicate K (replicate h 0))) = (0::real)"
    proof (induction w arbitrary: K)
      case Nil
      show ?case by simp
    next
      case (Cons a w)
      show ?case using c Cons.IH by (cases K) simp_all
    qed
  qed
  have "map (\<lambda>c. sum_list (map2 (\<lambda>wk vk. wk * vk ! c) w (replicate K (replicate h 0)))) [0..<h] =
        map (\<lambda>c. 0) [0..<h]"
    by (intro map_cong refl) (simp add: z)
  then show ?thesis by (simp add: weighted_sum_def map_replicate_const)
qed

lemma einsum_av_zero:
  assumes "map length a = replicate n_head T"
  shows "einsum_av a (replicate n_head (replicate K (replicate head_size 0))) =
         replicate n_head (replicate T (replicate head_size 0))"
proof -
  have len: "length a = n_head" using assms by (metis length_map length_replicate)
  have "einsum_av a (replicate n_head (replicate K (replicate head_size 0))) =
        map (\<lambda>ah. replicate (length ah) (replicate head_size 0)) a"
    unfolding einsum_av_def
    by (rule nth_equalityI) (simp_all add: len weighted_sum_zero map_replicate_const)
  also have "\<dots> = map (\<lambda>n. replicate n (replicate head_size 0)) (map length a)"
    by (simp add: comp_def)
  also have "\<dots> = replicate n_head (replicate T (replicate head_size 0))"
    unfolding assms by simp
  finally show ?thesis .
qed

lemma concat_replicate: "concat (replicate n (replicate m a)) = replicate (n * m) a"
  by (induction n) (simp_all add: replicate_add)

lemma merge_heads_zero:
  "merge_heads T (replicate n_head (replicate T (replicate head_size 0))) =
   replicate T (replicate n_embd 0)"
proof -
  have "map (\<lambda>t. concat (map (\<lambda>head. head ! t) (replicate n_head (replicate T (replicate head_size (0::real)))))) [0..<T] =
        map (\<lambda>t. replicate n_embd 0) [0..<T]"
    by (intro map_cong refl) (simp add: concat_replicate n_head_def head_size_def n_embd_def)
  then show ?thesis by (simp add: merge_heads_def map_replicate_const)
qed

lemma linear_zero: "linear (replicate m (replicate n 0)) (replicate m 0) r = replicate m 0"
  by (simp add: linear_def linear_nobias_zero vadd_def map_replicate_const)

lemma mha_mode_example:
  assumes kv: "mha_kv example_mha x uc c = kv_of example_mha ctx"
    and T: "length x \<le> block_size"
    and K: "length ctx = length x \<or> length x = 1"
  shows "mha_forward_mode True d pos example_mha x uc c =
         Inr ((replicate (length x) (replicate n_embd 0),
               if uc then Some (zero_kv (length ctx)) else c),
              pos + n_head * (length x * length ctx) + length x * n_embd)"
proof -
  let ?T = "length x" and ?K = "length ctx"
  let ?row = "\<lambda>n i. map (\<lambda>j. if j \<le> i + (?K - ?T) then Finite (score example_mha n (x ! i) (ctx ! j)) else Neg_inf) [0..<?K]"
  let ?A = "map (map softmax) (map (\<lambda>n. map (\<lambda>i. ?row n i) [0..<?T]) [0..<n_head])"
  let ?z = "replicate head_size (0::real)"
  have masked: "masked_fill_tril ?T ?K (mha_att_wei example_mha x uc c) =
        Inr (map (\<lambda>n. map (\<lambda>i. ?row n i) [0..<?T]) [0..<n_head])"
    unfolding mha_att_wei_char[OF kv] by (rule masked_fill_tril_char[OF T K])
  have shape: "map (map length) ?A = replicate n_head (replicate ?T ?K)"
    by (simp add: comp_def softmax_def map_replicate_const)
  obtain A' p1 where dh: "dropout_heads True d pos ?A = (A', p1)"
    by (cases "dropout_heads True d pos ?A")
  have shape': "map (map length) A' = replicate n_head (replicate ?T ?K)"
    using dropout_heads_shape[of True d pos ?A] unfolding dh shape by simp
  have "p1 = pos + sum_list (map (\<lambda>m. sum_list (map length m)) ?A)"
    using dropout_heads_count[of d pos ?A] unfolding dh by simp
  also have "sum_list (map (\<lambda>m. sum_list (map length m)) ?A) = sum_list (map sum_list (map (map length) ?A))"
    by (simp only: map_map comp_def)
  also have "\<dots> = n_head * (?T * ?K)"
    unfolding shape by (simp add: sum_list_replicate)
  finally have p1: "p1 = pos + n_head * (?T * ?K)" .
  have "map length A' = map length (map (map length) A')"
    by (simp add: comp_def)
  also have "\<dots> = replicate n_head ?T" unfolding shape' by simp
  finally have len': "map length A' = replicate n_head ?T" .
  have av: "einsum_av A' (replicate n_head (replicate ?K ?z)) = replicate n_head (replicate ?T ?z)"
    by (rule einsum_av_zero[OF len'])
  have kv': "mha_kv example_mha x uc c = (replicate n_head (replicate ?K ?z), replicate n_head (replicate ?K ?z))"
    unfolding kv kv_of_example zero_kv_def ..
  have pw: "proj_w example_mha = replicate n_embd (replicate n_embd 0)" "proj_b example_mha = replicate n_embd 0"
    by (simp_all add: example_mha_def)
  show ?thesis
    unfolding mha_forward_mode_def Let_def kv' prod.case time_len_replicate length_replicate
      masked sum.case dh av merge_heads_zero pw
    by (simp add: linear_zero map_replicate_const dropout_mat_zero p1 zero_kv_def)
qed

lemma mha_mode_fresh:
  assumes "length x \<le> block_size"
  shows "mha_forward_mode True d pos example_mha x uc None =
         Inr ((replicate (length x) (replicate n_embd 0),
               if uc then Some (zero_kv (length x)) else None),
              pos + n_head * (length x * length x) + length x * n_embd)"
  using mha_mode_example[OF mha_kv_nocache assms, where uc = uc and d = d and pos = pos] by simp

lemma mha_mode_step:
  assumes "K \<le> Suc block_size"
  shows "mha_forward_mode True d pos example_mha [r] True (Some (zero_kv K)) =
         Inr (([replicate n_embd 0], Some (zero_kv (Suc K))), pos + n_head * Suc K + n_embd)"
proof -
  have l: "length (replicate K ([]::real list)) \<le> Suc block_size" using assms by simp
  have kv: "mha_kv example_mha [r] True (Some (zero_kv K)) = kv_of example_mha (replicate K [] @ [r])"
    using mha_kv_cache[OF l, of example_mha "[r]"] by (simp add: kv_of_example)
  have "length [r] \<le> block_size" using block_size_ge2 by simp
  from mha_mode_example[OF kv this, where d = d and pos = pos] show ?thesis by simp
qed

subsection \<open>A block of the example, in training mode\<close>

lemma zeros_unit: "replicate n_embd 0 = unit_row 0"
proof -
  obtain k where k: "n_embd = Suc k" by (cases n_embd) (simp_all add: n_embd_def)
  show ?thesis unfolding unit_row_def k by simp
qed

lemma vadd_unit: "vadd (unit_row a) (unit_row b) = unit_row (a + b)"
  by (simp add: vadd_def unit_row_def map_replicate_const)

lemma dot_unit: "dot (unit_row a) (unit_row b) = a * b"
  by (simp add: dot_def unit_row_def sum_list_replicate)

lemma length_unit: "length (unit_row a) = n_embd"
  by (simp add: unit_row_def n_embd_def)

lemma ffwd_net_unit:
  "linear (w2 (ffwd dropout_block)) (b2 (ffwd dropout_block))
     (map relu (linear (w1 (ffwd dropout_block)) (b1 (ffwd dropout_block)) r)) = unit_row 1"
proof -
  have "linear (replicate n_embd (replicate (4 * n_embd) 0)) (unit_row 1) (replicate (4 * n_embd) 0) =
        vadd (replicate n_embd 0) (unit_row 1)"
    by (simp add: linear_def linear_nobias_zero)
  also have "\<dots> = unit_row 1" unfolding zeros_unit vadd_unit by simp
  finally show ?thesis
    by (simp add: dropout_block_def linear_zero relu_def)
qed

lemma dropout_mat_unit1:
  "dropout_mat True d pos [unit_row a] =
     ([unit_row (if d pos then a / (1 - dropout_rate) else 0)], pos + n_embd)"
  by (simp add: dropout_mat_def dropout_row_unit)

lemma dropout_mat_unit2:
  "dropout_mat True d pos [unit_row a, unit_row b] =
     ([unit_row (if d pos then a / (1 - dropout_rate) else 0),
       unit_row (if d (pos + n_embd) then b / (1 - dropout_rate) else 0)], pos + n_embd + n_embd)"
  by (simp add: dropout_mat_def dropout_row_unit)

lemma block_mode_fresh1:
  "block_forward_mode True d pos dropout_block [unit_row a] uc None =
     Inr (([unit_row (a + (if d (pos + n_head + n_embd) then 1 / (1 - dropout_rate) else 0))],
           if uc then Some (zero_kv 1) else None),
          pos + n_head + n_embd + n_embd)"
proof -
  have l: "length (map (layer_norm (ln1 dropout_block)) [unit_row a]) \<le> block_size"
    using block_size_ge2 by simp
  have sa: "sa_heads dropout_block = example_mha" by (simp add: dropout_block_def)
  show ?thesis
    unfolding block_forward_mode_def sa mha_mode_fresh[OF l] ffwd_forward_mode_def
    by (simp add: tadd_def zeros_unit vadd_unit ffwd_net_unit dropout_mat_unit1)
qed

lemma block_mode_fresh2:
  "block_forward_mode True d pos dropout_block [unit_row a, unit_row b] False None =
     Inr (([unit_row (a + (if d (pos + n_head * 4 + n_embd + n_embd) then 1 / (1 - dropout_rate) else 0)),
            unit_row (b + (if d (pos + n_head * 4 + n_embd + n_embd + n_embd) then 1 / (1 - dropout_rate) else 0))],
           None),
          pos + n_head * 4 + n_embd + n_embd + n_embd + n_embd)"
proof -
  let ?x = "map (layer_norm (ln1 dropout_block)) [unit_row a, unit_row b]"
  have l: "length ?x \<le> block_size"
    using block_size_ge2 by simp
  have sa: "sa_heads dropout_block = example_mha" by (simp add: dropout_block_def)
  have p: "pos + n_head * (length ?x * length ?x) + length ?x * n_embd = pos + n_head * 4 + n_embd + n_embd"
    by simp
  have r: "replicate (length ?x) (replicate n_embd (0::real)) = [unit_row 0, unit_row 0]"
    by (simp add: zeros_unit)
  have m: "mha_forward_mode True d pos example_mha ?x False None =
           Inr (([unit_row 0, unit_row 0], None), pos + n_head * 4 + n_embd + n_embd)"
    unfolding mha_mode_fresh[OF l] p r by simp
  show ?thesis
    unfolding block_forward_mode_def sa m ffwd_forward_mode_def
    by (simp add: tadd_def vadd_unit ffwd_net_unit dropout_mat_unit2)
qed

lemma block_mode_step:
  assumes "K \<le> Suc block_size"
  shows "block_forward_mode True d pos dropout_block [unit_row a] True (Some (zero_kv K)) =
     Inr (([unit_row (a + (if d (pos + n_head * Suc K + n_embd) then 1 / (1 - dropout_rate) else 0))],
           Some (zero_kv (Suc K))),
          pos + n_head * Suc K + n_embd + n_embd)"
proof -
  have sa: "sa_heads dropout_block = example_mha" by (simp add: dropout_block_def)
  show ?thesis
    unfolding block_forward_mode_def sa list.map mha_mode_step[OF assms] ffwd_forward_mode_def
    by (simp add: tadd_def zeros_unit vadd_unit ffwd_net_unit dropout_mat_unit1)
qed

subsection \<open>Final normalisation, logits and the sampled token\<close>

lemma layer_norm_struct:
  "vadd (map2 (*) (map f (unit_row s)) (unit_row 1)) (unit_row 0) = unit_row (f s)"
  by (simp add: unit_row_def vadd_def)

lemma sum_list_unit: "sum_list (unit_row s) = s"
  by (simp add: unit_row_def sum_list_replicate)

lemma sum_sq_unit:
  "sum_list (map (\<lambda>v. (v - m)\<^sup>2) (unit_row s)) = (s - m)\<^sup>2 + real (n_embd - 1) * m\<^sup>2"
  by (simp add: unit_row_def sum_list_replicate)

lemma layer_norm_unit:
  "layer_norm (ln_f dropout_model) (unit_row s) =
   unit_row ((s - s / real n_embd) /
             sqrt (((s - s / real n_embd)\<^sup>2 + real (n_embd - 1) * (s / real n_embd)\<^sup>2) / real n_embd
                   + 1 / 100000))"
proof -
  have p: "ln_weight (ln_f dropout_model) = unit_row 1" "ln_bias (ln_f dropout_model) = unit_row 0"
    by (simp_all add: dropout_model_def zeros_unit)
  show ?thesis
    unfolding layer_norm_def Let_def p length_unit sum_list_unit sum_sq_unit layer_norm_struct ..
qed

lemma layer_norm_unit_zero: "layer_norm (ln_f dropout_model) (unit_row 0) = unit_row 0"
  unfolding layer_norm_unit by simp

lemma layer_norm_unit_kept:
  "\<exists>y. layer_norm (ln_f dropout_model) (unit_row (5 / 4)) = unit_row y \<and> 1 \<le> y"
proof -
  define a :: real where "a = 5 / 4 - 5 / 4 / real n_embd"
  define V :: real where
    "V = (a\<^sup>2 + real (n_embd - 1) * (5 / 4 / real n_embd)\<^sup>2) / real n_embd + 1 / 100000"
  have a: "1 \<le> a" by (simp add: a_def n_embd_def)
  have V0: "0 < V" and V1: "V \<le> 1"
    by (simp_all add: V_def a_def n_embd_def power2_eq_square)
  have q0: "0 < sqrt V" using V0 by simp
  have q1: "sqrt V \<le> 1" using V1 by (simp add: real_le_lsqrt)
  have "a \<le> a / sqrt V"
    using a q0 q1 by (simp add: le_divide_eq)
  with a have "1 \<le> a / sqrt V" by simp
  moreover have "layer_norm (ln_f dropout_model) (unit_row (5 / 4)) = unit_row (a / sqrt V)"
    unfolding layer_norm_unit a_def V_def ..
  ultimately show ?thesis by blast
qed

lemma logits_unit:
  "linear (lm_head_w dropout_model) (lm_head_b dropout_model) (unit_row y) = [y, - y, 0]"
  by (simp add: dropout_model_def linear_def linear_nobias_def vadd_def dot_unit dot_zero_right)

lemma last_logits:
  "xs \<noteq> [] \<Longrightarrow>
   last (lm_logits P xs) = linear (lm_head_w P) (lm_head_b P) (layer_norm (ln_f P) (last xs))"
  by (simp add: lm_logits_def last_map)

lemma draw_uniform: "draw_two_fifths k (softmax (map Finite [0, - 0, 0])) = 1"
  by (simp add: draw_two_fifths_def softmax_def)

lemma draw_peaked:
  assumes "1 \<le> y"
  shows "draw_two_fifths k (softmax (map Finite [y, - y, 0])) = 0"
proof -
  have "1 + y \<le> exp y" by (rule exp_ge_add_one_self)
  with assms have e1: "2 \<le> exp y" by linarith
  have e2: "exp (- y) \<le> 1" using assms by simp
  have Z: "0 < exp y + (exp (- y) + 1)"
    by (simp add: add_pos_pos)
  have "2 * (e + (f + 1)) < 5 * e" if "2 \<le> e" and "f \<le> 1" for e :: real and f :: real
    using that by (simp add: algebra_simps)
  from this[OF e1 e2] have "2 * (exp y + (exp (- y) + 1)) < 5 * exp y" .
  then have "2 / 5 < exp y / (exp y + (exp (- y) + 1))"
    using Z by (simp add: field_simps)
  then show ?thesis
    by (simp add: draw_two_fifths_def softmax_def)
qed

lemma next_token_dropped:
  assumes "xs \<noteq> []" and "last xs = unit_row 0"
  shows "last (lm_logits dropout_model xs) = [0, - 0, 0]"
  by (simp add: last_logits[OF assms(1)] assms(2) layer_norm_unit_zero logits_unit)

lemma next_token_kept:
  assumes "xs \<noteq> []" and "last xs = unit_row (5 / 4)"
  shows "\<exists>y. last (lm_logits dropout_model xs) = [y, - y, 0] \<and> 1 \<le> y"
proof -
  from layer_norm_unit_kept obtain y
    where "layer_norm (ln_f dropout_model) (unit_row (5 / 4)) = unit_row y" and "1 \<le> y" by blast
  then show ?thesis
    by (simp add: last_logits[OF assms(1)] assms(2) logits_unit)
qed

subsection \<open>Two steps of generation, in training mode\<close>

lemma replicate_n_layer: "replicate n_layer c = [c, c, c, c, c, c]"
  by (simp add: n_layer_def numeral_eq_Suc)

lemma kept_value: "1 / (1 - dropout_rate) = 5 / 4"
  by (simp add: dropout_rate_def)

lemma run_blocks_first:
  "run_blocks_mode True keep_one 0 (zip (blocks dropout_model) (replicate n_layer None)) [unit_row 0] uc =
     Inr (([unit_row 0], replicate n_layer (if uc then Some (zero_kv 1) else None)), 4644)"
proof -
  have b: "blocks dropout_model = replicate n_layer dropout_block" by (simp add: dropout_model_def)
  show ?thesis
    unfolding b replicate_n_layer
    by (simp add: block_mode_fresh1 keep_one_def n_head_def n_embd_def)
qed

lemma run_blocks_cached:
  "run_blocks_mode True keep_one 4644
     (zip (blocks dropout_model) (replicate n_layer (Some (zero_kv 1)))) [unit_row 0] True =
     Inr (([unit_row (5 / 4)], replicate n_layer (Some (zero_kv 2))), 9324)"
proof -
  have b: "blocks dropout_model = replicate n_layer dropout_block" by (simp add: dropout_model_def)
  have s: "Suc (Suc 0) = 2" by simp
  have le: "Suc 0 \<le> Suc block_size" by simp
  note st = block_mode_step[OF le, unfolded s]
  show ?thesis
    unfolding b replicate_n_layer
    by (simp add: st keep_one_def n_head_def n_embd_def kept_value)
qed

lemma run_blocks_full:
  "run_blocks_mode True keep_one 4644
     (zip (blocks dropout_model) (replicate n_layer None)) [unit_row 0, unit_row 0] False =
     Inr (([unit_row 0, unit_row 0], replicate n_layer None), 14004)"
proof -
  have b: "blocks dropout_model = replicate n_layer dropout_block" by (simp add: dropout_model_def)
  show ?thesis
    unfolding b replicate_n_layer
    by (simp add: block_mode_fresh2 keep_one_def n_head_def n_embd_def)
qed

lemma embed_one:
  assumes "t < 3" and "h < block_size"
  shows "embed dropout_model [t] h = Inr [unit_row 0]"
  using assms
  by (simp add: embed_char valid_def dropout_model_def zeros_unit vadd_unit)

lemma embed_two:
  assumes "t < 3" and "u < 3"
  shows "embed dropout_model [t, u] 0 = Inr [unit_row 0, unit_row 0]"
  using assms block_size_ge2
  by (simp add: embed_char valid_def dropout_model_def zeros_unit vadd_unit upt_conv_Cons)

lemma history_length_one: "history_length (Some (replicate n_layer (Some (zero_kv 1)))) = 1"
  unfolding replicate_n_layer by (simp add: history_length_def zero_kv_def time_len_replicate)

lemma softmax_empty: "softmax xs = [] \<longleftrightarrow> xs = []"
  by (simp add: softmax_def)

lemma step_dropped:
  assumes "xs \<noteq> []" and "last xs = unit_row 0"
  shows "lm_logits dropout_model xs \<noteq> []"
    and "softmax (map Finite (last (lm_logits dropout_model xs))) \<noteq> []"
    and "draw_two_fifths k (softmax (map Finite (last (lm_logits dropout_model xs)))) = 1"
  unfolding next_token_dropped[OF assms] draw_uniform
  using assms(1) by (simp_all add: lm_logits_empty softmax_empty)

lemma step_kept:
  assumes "xs \<noteq> []" and "last xs = unit_row (5 / 4)"
  shows "lm_logits dropout_model xs \<noteq> []"
    and "softmax (map Finite (last (lm_logits dropout_model xs))) \<noteq> []"
    and "draw_two_fifths k (softmax (map Finite (last (lm_logits dropout_model xs)))) = 0"
proof -
  from next_token_kept[OF assms] obtain y
    where y: "last (lm_logits dropout_model xs) = [y, - y, 0]" and "1 \<le> y" by blast
  show "lm_logits dropout_model xs \<noteq> []" using assms(1) by (simp add: lm_logits_empty)
  show "softmax (map Finite (last (lm_logits dropout_model xs))) \<noteq> []"
    unfolding y by (simp add: softmax_empty)
  show "draw_two_fifths k (softmax (map Finite (last (lm_logits dropout_model xs)))) = 0"
    unfolding y by (rule draw_peaked[OF \<open>1 \<le> y\<close>])
qed

lemma cached_step_one:
  "generate_step_mode True keep_one dropout_model draw_two_fifths 0
     (([0], replicate n_layer None, [0]), 0) =
   Inr (([1], replicate n_layer (Some (zero_kv 1)), [0, 1]), 4644)"
proof -
  have e: "embed dropout_model [0] 0 = Inr [unit_row 0]"
    by (rule embed_one) (simp_all add: block_size_def)
  have f: "forward_mode True keep_one 0 dropout_model [0] None True (Some (replicate n_layer None)) =
           Inr ((lm_logits dropout_model [unit_row 0], None,
                 Some (replicate n_layer (Some (zero_kv 1)))), 4644)"
    unfolding forward_mode_def history_length_fresh e
    by (simp add: run_blocks_first)
  have x: "[unit_row (0::real)] \<noteq> []" "last [unit_row (0::real)] = unit_row 0" by simp_all
  show ?thesis
    unfolding generate_step_mode_def prod.case f
    by (simp add: step_dropped[OF x] Let_def)
qed

lemma cached_step_two:
  "generate_step_mode True keep_one dropout_model draw_two_fifths (Suc 0)
     (([1], replicate n_layer (Some (zero_kv 1)), [0, 1]), 4644) =
   Inr (([0], replicate n_layer (Some (zero_kv 2)), [0, 1, 0]), 9324)"
proof -
  have e: "embed dropout_model [1] 1 = Inr [unit_row 0]"
    by (rule embed_one) (simp_all add: block_size_def)
  have f: "forward_mode True keep_one 4644 dropout_model [1] None True
             (Some (replicate n_layer (Some (zero_kv 1)))) =
           Inr ((lm_logits dropout_model [unit_row (5 / 4)], None,
                 Some (replicate n_layer (Some (zero_kv 2)))), 9324)"
    by (simp only: forward_mode_def history_length_one e sum.case option.case run_blocks_cached
          prod.case Let_def if_True)
  have x: "[unit_row (5 / 4 :: real)] \<noteq> []" "last [unit_row (5 / 4 :: real)] = unit_row (5 / 4)"
    by simp_all
  show ?thesis
    unfolding generate_step_mode_def prod.case f
    by (simp add: step_kept[OF x] Let_def)
qed

lemma full_step_one:
  "full_step_mode True keep_one dropout_model draw_two_fifths 0 ([0], 0) = Inr ([0, 1], 4644)"
proof -
  have e: "embed dropout_model [0] 0 = Inr [unit_row 0]"
    by (rule embed_one) (simp_all add: block_size_def)
  have f: "forward_full_mode True keep_one 0 dropout_model [0] =
           Inr (lm_logits dropout_model [unit_row 0], 4644)"
    unfolding forward_full_mode_def e
    by (simp add: run_blocks_first)
  have x: "[unit_row (0::real)] \<noteq> []" "last [unit_row (0::real)] = unit_row 0" by simp_all
  show ?thesis
    unfolding full_step_mode_def prod.case f
    by (simp add: step_dropped[OF x] Let_def)
qed

lemma full_step_two:
  "full_step_mode True keep_one dropout_model draw_two_fifths (Suc 0) ([0, 1], 4644) =
   Inr ([0, 1, 1], 14004)"
proof -
  have e: "embed dropout_model [0, 1] 0 = Inr [unit_row 0, unit_row 0]"
    by (rule embed_two) simp_all
  have f: "forward_full_mode True keep_one 4644 dropout_model [0, 1] =
           Inr (lm_logits dropout_model [unit_row 0, unit_row 0], 14004)"
    unfolding forward_full_mode_def e
    by (simp add: run_blocks_full)
  have x: "[unit_row (0::real), unit_row 0] \<noteq> []" "last [unit_row (0::real), unit_row 0] = unit_row 0"
    by simp_all
  show ?thesis
    unfolding full_step_mode_def prod.case f
    by (simp add: step_dropped[OF x] Let_def)
qed

lemma generate_training_cached:
  "generate_mode True keep_one 0 dropout_model draw_two_fifths [0] 2 = Inr [0, 1, 0]"
proof -
  have two: "(2::nat) = Suc (Suc 0)" by simp
  have "generate_loop_mode True keep_one dropout_model draw_two_fifths (Suc (Suc 0)) 0
          (([0], replicate n_layer None, [0]), 0) =
        Inr (([0], replicate n_layer (Some (zero_kv 2)), [0, 1, 0]), 9324)"
    by (simp only: generate_loop_mode.simps cached_step_one cached_step_two sum.case)
  then show ?thesis
    unfolding generate_mode_def two by simp
qed

lemma generate_training_full:
  "generate_full_mode True keep_one 0 dropout_model draw_two_fifths [0] 2 = Inr [0, 1, 1]"
proof -
  have two: "(2::nat) = Suc (Suc 0)" by simp
  have "generate_full_loop_mode True keep_one dropout_model draw_two_fifths (Suc (Suc 0)) 0 ([0], 0) =
        Inr ([0, 1, 1], 14004)"
    by (simp only: generate_full_loop_mode.simps full_step_one full_step_two sum.case)
  then show ?thesis
    unfolding generate_full_mode_def two by simp
qed

lemma constructed_dropout_model: "constructed dropout_model"
  by (simp add: constructed_def dropout_model_def)

text \<open>
  Claim C4 as stated, for every prompt and every number of new tokens under the same seed
  and the same sampling draws, fails. \<^verbatim>\<open>generate\<close> runs in the mode the model is in, and
  in training mode the dropout layers of the cached run and of the run by full forward
  passes take different draws of the same generator. The instance is the model
  \<open>dropout_model\<close> in training mode, the prompt \<^verbatim>\<open>[0]\<close>, two new tokens, the draws
  \<open>keep_one\<close> and the sampler \<open>draw_two_fifths\<close>. In their first step both runs pass the
  one row of the prompt through the six blocks and take the draws 0 to 4643, all of which
  fail: the logits are equal and both runs sample the token 1. In its second step the
  cached run passes the one new row through the blocks. Its first block takes 12 draws
  for the attention weights (6 heads, 1 query, 2 keys) and 384 for the output of the
  attention layer, so the dropout of its feed-forward module starts at the draw
  \<open>4644 + 396 = 5040\<close>, which succeeds: the first coordinate of the row is kept, and the
  run samples the token 0. The run by full forward passes sends both rows through the
  blocks. There a block takes 24 draws for the attention weights and 768 for the output
  of the attention layer, and the first coordinate of the last row takes the draw
  \<open>4644 + 1176 = 5820\<close> in the first block and the draw 1560 later in each further
  block; all of them fail, and the run samples the token 1.
\<close>

theorem cache_equivalence_fails_in_training:
  "generate_mode True keep_one 0 dropout_model draw_two_fifths [0] 2 = Inr [0, 1, 0] \<and>
   generate_full_mode True keep_one 0 dropout_model draw_two_fifths [0] 2 = Inr [0, 1, 1]"
  using generate_training_cached generate_training_full by (rule conjI)

text \<open>
  Claim C4, amended. With the model in evaluation mode, for every prompt, every number of
  new tokens and every sequence of sampling draws, generation with the incremental
  key/value cache returns exactly what generation by a full forward pass over the whole
  sequence at each step returns: the same tokens, or the same exception.
\<close>

theorem cache_equivalence_in_evaluation_mode:
  "constructed P \<Longrightarrow>
   generate_mode False draws pos P multinomial idx N =
   generate_full_mode False draws pos P multinomial idx N"
  by (rule generate_mode_eq_full)

theorem cache_equivalence_in_evaluation_mode_witness:
  "generate_mode False keep_one 0 dropout_model draw_two_fifths [0] 2 =
   generate_full_mode False keep_one 0 dropout_model draw_two_fifths [0] 2"
  using cache_equivalence_in_evaluation_mode[OF constructed_dropout_model] .

end
